theory Spec2Isabelle
  imports Complex_Main
begin

section \<open>Errors and JavaScript primitives\<close>

text \<open>
  Every \<^verbatim>\<open>throw\<close> of \<^verbatim>\<open>src/address.ts\<close> becomes a value of \<open>error\<close>.
  \<open>AddressValueError\<close> is the library's own exception; \<open>RangeError\<close> is what JavaScript's
  \<^verbatim>\<open>Array(n)\<close> raises for a negative \<open>n\<close>; \<open>InvalidByte\<close> is what the byte
  container's constructor raises.
\<close>

datatype error = AddressValueError | InvalidByte | RangeError

text \<open>\<^verbatim>\<open>String.prototype.split\<close> with a one-character separator: the empty string
  splits into one empty part.\<close>

fun js_split :: "char \<Rightarrow> string \<Rightarrow> string list" where
  "js_split sep [] = [[]]"
| "js_split sep (c # cs) =
     (if c = sep then [] # js_split sep cs
      else (case js_split sep cs of [] \<Rightarrow> [[c]] | p # ps \<Rightarrow> (c # p) # ps))"

text \<open>\<^verbatim>\<open>Array.prototype.join\<close> on an array of strings.\<close>

fun js_join :: "string \<Rightarrow> string list \<Rightarrow> string" where
  "js_join sep [] = []"
| "js_join sep [x] = x"
| "js_join sep (x # y # ys) = x @ sep @ js_join sep (y # ys)"

definition digit_char :: "nat \<Rightarrow> char" where
  "digit_char d =
     (if d < 16 then ''0123456789abcdef'' ! d else CHR ''?'')"

text \<open>\<^verbatim>\<open>Number.prototype.toString()\<close> and \<^verbatim>\<open>toString(16)\<close> on a non-negative
  integer.\<close>

fun toString10 :: "nat \<Rightarrow> string" where
  "toString10 n =
     (if n < 10 then [digit_char n] else toString10 (n div 10) @ [digit_char (n mod 10)])"

fun toString16 :: "nat \<Rightarrow> string" where
  "toString16 n =
     (if n < 16 then [digit_char n] else toString16 (n div 16) @ [digit_char (n mod 16)])"

declare toString10.simps [simp del]
declare toString16.simps [simp del]

definition padStart :: "nat \<Rightarrow> char \<Rightarrow> string \<Rightarrow> string" where
  "padStart n c s = replicate (n - length s) c @ s"

definition digit_value :: "char \<Rightarrow> nat" where
  "digit_value c =
     (case map_of
        [(CHR ''0'', 0), (CHR ''1'', 1), (CHR ''2'', 2), (CHR ''3'', 3), (CHR ''4'', 4),
         (CHR ''5'', 5), (CHR ''6'', 6), (CHR ''7'', 7), (CHR ''8'', 8), (CHR ''9'', 9),
         (CHR ''a'', 10), (CHR ''b'', 11), (CHR ''c'', 12), (CHR ''d'', 13), (CHR ''e'', 14),
         (CHR ''f'', 15), (CHR ''A'', 10), (CHR ''B'', 11), (CHR ''C'', 12), (CHR ''D'', 13),
         (CHR ''E'', 14), (CHR ''F'', 15)] c of
        Some v \<Rightarrow> v
      | None \<Rightarrow> 0)"

text \<open>\<^verbatim>\<open>parseInt(s, radix)\<close> on a string that the caller has already checked to consist of
  digits of that radix only: the value of the digits.\<close>

definition parseInt :: "string \<Rightarrow> nat \<Rightarrow> nat" where
  "parseInt s radix = foldl (\<lambda>acc c. acc * radix + digit_value c) 0 s"

text \<open>\<^verbatim>\<open>String.prototype.toLowerCase\<close> on the ASCII letters.\<close>

definition lower_char :: "char \<Rightarrow> char" where
  "lower_char c =
     (case map_of (zip ''ABCDEFGHIJKLMNOPQRSTUVWXYZ'' ''abcdefghijklmnopqrstuvwxyz'') c of
        Some l \<Rightarrow> l
      | None \<Rightarrow> c)"

definition toLowerCase :: "string \<Rightarrow> string" where
  "toLowerCase s = map lower_char s"

section \<open>Constants, validators and the byte container\<close>

text \<open>Modelled from the spec: \<^verbatim>\<open>constants.ts\<close> is not among the sources. An IPv4
  address has 4 bytes, an IPv6 address 16, and an IPv6 group has at most 4 hexadecimal
  digits.\<close>

definition IPV4_BYTES :: nat where
  "IPV4_BYTES = 4"

definition IPV6_BYTES :: nat where
  "IPV6_BYTES = 16"

definition IPV6_SEGMENT_LENGTH :: nat where
  "IPV6_SEGMENT_LENGTH = 4"

text \<open>Modelled from the spec: the validators of \<^verbatim>\<open>arrays.ts\<close> are not among the sources.
  \<open>isValidByte n\<close> holds iff \<open>0 \<le> n \<le> 255\<close>; a digit string is non-empty and made of
  digits of its alphabet only, the hexadecimal one in either case.\<close>

definition isValidByte :: "int \<Rightarrow> bool" where
  "isValidByte n = (0 \<le> n \<and> n \<le> 255)"

definition isValidByteArray :: "int list \<Rightarrow> bool" where
  "isValidByteArray xs = list_all isValidByte xs"

definition isDecimalString :: "string \<Rightarrow> bool" where
  "isDecimalString s = (s \<noteq> [] \<and> list_all (\<lambda>c. c \<in> set ''0123456789'') s)"

definition isHexadecimalString :: "string \<Rightarrow> bool" where
  "isHexadecimalString s =
     (s \<noteq> [] \<and> list_all (\<lambda>c. c \<in> set ''0123456789abcdefABCDEF'') s)"

text \<open>Modelled from the spec: the class \<^verbatim>\<open>ByteContainer\<close> of \<^verbatim>\<open>arrays.ts\<close> is not among
  the sources. It holds a sequence of unsigned bytes; its constructor fails with
  \<open>InvalidByte\<close> when an element is outside \<open>[0, 255]\<close> and enforces no width.\<close>

datatype ByteContainer = ByteContainer (bytes: "nat list")

definition new_ByteContainer :: "int list \<Rightarrow> error + ByteContainer" where
  "new_ByteContainer xs =
     (if isValidByteArray xs then Inr (ByteContainer (map nat xs)) else Inl InvalidByte)"

text \<open>Modelled from the spec: \<^verbatim>\<open>comparison\<close> and \<^verbatim>\<open>ByteContainer.compareWith\<close> are not among
  the sources. The comparison is lexicographic, most significant byte first, and three-way.\<close>

datatype comparison = Lesser | Equal | Greater

fun compareBytes :: "nat list \<Rightarrow> nat list \<Rightarrow> comparison" where
  "compareBytes [] [] = Equal"
| "compareBytes [] (y # ys) = Lesser"
| "compareBytes (x # xs) [] = Greater"
| "compareBytes (x # xs) (y # ys) =
     (if x < y then Lesser else if y < x then Greater else compareBytes xs ys)"

definition compareWith :: "ByteContainer \<Rightarrow> nat list \<Rightarrow> comparison" where
  "compareWith c other = compareBytes (bytes c) other"

text \<open>Modelled from the spec: \<^verbatim>\<open>ByteContainer.add\<close> is not among the sources. The amount
  is right-aligned; the bytes are added from the least significant one with the carry
  moving left, and a carry past the most significant byte is discarded. \<open>add_lsb\<close> works
  on the reversed (least significant first) sequences.\<close>

fun add_lsb :: "nat list \<Rightarrow> nat list \<Rightarrow> nat \<Rightarrow> nat list" where
  "add_lsb [] ys carry = []"
| "add_lsb (x # xs) [] carry =
     ((x + carry) mod 256) # add_lsb xs [] ((x + carry) div 256)"
| "add_lsb (x # xs) (y # ys) carry =
     ((x + y + carry) mod 256) # add_lsb xs ys ((x + y + carry) div 256)"

definition ByteContainer_add :: "ByteContainer \<Rightarrow> nat list \<Rightarrow> ByteContainer" where
  "ByteContainer_add c amount = ByteContainer (rev (add_lsb (rev (bytes c)) (rev amount) 0))"

section \<open>The address classes\<close>

text \<open>An address owns one byte container; the concrete class is the constructor. The
  cached fields (\<^verbatim>\<open>_decimal\<close>, \<^verbatim>\<open>_ipString\<close>, \<^verbatim>\<open>_rfc5952\<close>) memoise pure functions of the
  container and are not modelled.\<close>

datatype Address = Address4 (byteContainer: ByteContainer) | Address6 (byteContainer: ByteContainer)

text \<open>The constructors' argument: \<^verbatim>\<open>string | ReadonlyArray<number> | ByteContainer\<close>.\<close>

datatype input = String string | Array "int list" | Container ByteContainer

definition getOctets :: "Address \<Rightarrow> nat list" where
  "getOctets a = bytes (byteContainer a)"

text \<open>The callback of \<^verbatim>\<open>addressSplitted.map\<close> in the constructor of \<^verbatim>\<open>Address4\<close>, and a
  map that stops at the first exception.\<close>

definition Address4_octet :: "string \<Rightarrow> error + nat" where
  "Address4_octet octet =
     (if \<not> isDecimalString octet then Inl AddressValueError
      else (let numberOctet = parseInt octet 10 in
        if \<not> isValidByte (int numberOctet) then Inl AddressValueError
        else Inr numberOctet))"

fun map_throw :: "('a \<Rightarrow> error + 'b) \<Rightarrow> 'a list \<Rightarrow> error + 'b list" where
  "map_throw f [] = Inr []"
| "map_throw f (x # xs) =
     (case f x of
        Inl e \<Rightarrow> Inl e
      | Inr y \<Rightarrow> (case map_throw f xs of Inl e \<Rightarrow> Inl e | Inr ys \<Rightarrow> Inr (y # ys)))"

fun new_Address4 :: "input \<Rightarrow> error + Address" where
  "new_Address4 (Container c) = Inr (Address4 c)"
| "new_Address4 (Array inp) =
     (if length inp > IPV4_BYTES then Inl AddressValueError
      else if \<not> isValidByteArray inp then Inl AddressValueError
      else (case new_ByteContainer (replicate (IPV4_BYTES - length inp) 0 @ inp) of
              Inl e \<Rightarrow> Inl e
            | Inr c \<Rightarrow> Inr (Address4 c)))"
| "new_Address4 (String inp) =
     (let addressSplitted = js_split CHR ''.'' inp in
      if length addressSplitted \<noteq> IPV4_BYTES then Inl AddressValueError
      else (case map_throw Address4_octet addressSplitted of
              Inl e \<Rightarrow> Inl e
            | Inr octets \<Rightarrow>
                (case new_ByteContainer (map int octets) of
                   Inl e \<Rightarrow> Inl e
                 | Inr c \<Rightarrow> Inr (Address4 c))))"

definition Address4_getIpString :: "Address \<Rightarrow> string" where
  "Address4_getIpString a = js_join ''.'' (map toString10 (getOctets a))"

text \<open>The loop of the constructor of \<^verbatim>\<open>Address6\<close> over \<^verbatim>\<open>addressSplitted.entries()\<close>;
  \<open>n\<close> is \<^verbatim>\<open>addressSplitted.length\<close>. The state is \<^verbatim>\<open>shortenedIndex\<close> (\<open>None\<close> for
  \<^verbatim>\<open>null\<close>) and \<^verbatim>\<open>octets\<close>.\<close>

fun Address6_loop ::
  "nat \<Rightarrow> (nat \<times> string) list \<Rightarrow> nat option \<Rightarrow> nat list \<Rightarrow> error + (nat option \<times> nat list)"
where
  "Address6_loop n [] shortenedIndex octets = Inr (shortenedIndex, octets)"
| "Address6_loop n ((index, item) # rest) shortenedIndex octets =
     (if item = [] then
        (case shortenedIndex of
           None \<Rightarrow> Address6_loop n rest (Some index) octets
         | Some si \<Rightarrow>
             if si = 0 \<and> index = 1 then Address6_loop n rest shortenedIndex octets
             else if int si = int n - 2 \<and> int index = int n - 1
               then Address6_loop n rest shortenedIndex octets
             else Inl AddressValueError)
      else if CHR ''.'' \<in> set item then
        (if int index \<noteq> int n - 1 then Inl AddressValueError
         else (case new_Address4 (String item) of
                 Inl e \<Rightarrow> Inl e
               | Inr a \<Rightarrow> Address6_loop n rest shortenedIndex (octets @ getOctets a)))
      else if length item > IPV6_SEGMENT_LENGTH then Inl AddressValueError
      else (let item' = replicate (IPV6_SEGMENT_LENGTH - length item) CHR ''0'' @ item;
                firstOctet = toLowerCase (take (IPV6_SEGMENT_LENGTH div 2) item');
                secondOctet = toLowerCase (drop (IPV6_SEGMENT_LENGTH div 2) item')
            in if \<not> isHexadecimalString firstOctet then Inl AddressValueError
               else if \<not> isHexadecimalString secondOctet then Inl AddressValueError
               else Address6_loop n rest shortenedIndex
                      (octets @ [parseInt firstOctet 16, parseInt secondOctet 16])))"

text \<open>The splice after the loop. \<^verbatim>\<open>Array(IPV6_BYTES - octets.length)\<close> raises
  \<open>RangeError\<close> when its argument is negative.\<close>

definition Address6_expand :: "nat option \<Rightarrow> nat list \<Rightarrow> error + nat list" where
  "Address6_expand shortenedIndex octets =
     (case shortenedIndex of
        None \<Rightarrow> Inr octets
      | Some si \<Rightarrow>
          if int IPV6_BYTES - int (length octets) < 0 then Inl RangeError
          else Inr (take (si * 2) octets
                    @ replicate (IPV6_BYTES - length octets) 0
                    @ drop (si * 2) octets))"

fun new_Address6 :: "input \<Rightarrow> error + Address" where
  "new_Address6 (Container c) = Inr (Address6 c)"
| "new_Address6 (Array inp) =
     (if length inp > IPV6_BYTES then Inl AddressValueError
      else if \<not> isValidByteArray inp then Inl AddressValueError
      else (case new_ByteContainer (replicate (IPV6_BYTES - length inp) 0 @ inp) of
              Inl e \<Rightarrow> Inl e
            | Inr c \<Rightarrow> Inr (Address6 c)))"
| "new_Address6 (String inp) =
     (let addressSplitted = js_split CHR '':'' inp in
      case Address6_loop (length addressSplitted) (enumerate 0 addressSplitted) None [] of
        Inl e \<Rightarrow> Inl e
      | Inr (shortenedIndex, octets) \<Rightarrow>
          (case Address6_expand shortenedIndex octets of
             Inl e \<Rightarrow> Inl e
           | Inr octets' \<Rightarrow>
               if length octets' \<noteq> IPV6_BYTES then Inl AddressValueError
               else (case new_ByteContainer (map int octets') of
                       Inl e \<Rightarrow> Inl e
                     | Inr c \<Rightarrow> Inr (Address6 c))))"

section \<open>Methods of the base class\<close>

text \<open>\<^verbatim>\<open>2 ** e\<close> for an integer exponent, negative ones included.\<close>

definition js_pow2 :: "int \<Rightarrow> rat" where
  "js_pow2 e = (if 0 \<le> e then 2 ^ nat e else 1 / 2 ^ nat (- e))"

text \<open>\<^verbatim>\<open>getDecimal\<close>: the reduction
  \<^verbatim>\<open>(total, octet, index) => total + octet * (2 ** (8 * (4 - index - 1)))\<close> from 0. A
  JavaScript number is an IEEE double; the model computes with exact rationals, which is
  what the doubles give as long as every partial sum is an integer below \<open>2 ^ 53\<close> or a
  single power of two: on every address of four bytes, and on the address of \<^verbatim>\<open>"::1"\<close>.
  On other addresses of 16 bytes the doubles round (for \<^verbatim>\<open>"1::1"\<close> the code returns 65536,
  the model \<open>65536 + 2 ^ -96\<close>), and nothing is proved of \<open>getDecimal\<close> there.\<close>

definition getDecimal :: "Address \<Rightarrow> rat" where
  "getDecimal a =
     foldl (\<lambda>total (index, octet). total + of_nat octet * js_pow2 (8 * (4 - int index - 1)))
       0 (enumerate 0 (getOctets a))"

definition eq :: "Address \<Rightarrow> Address \<Rightarrow> bool" where
  "eq a other = (compareWith (byteContainer a) (getOctets other) = Equal)"

definition ne :: "Address \<Rightarrow> Address \<Rightarrow> bool" where
  "ne a other = (compareWith (byteContainer a) (getOctets other) \<noteq> Equal)"

definition gt :: "Address \<Rightarrow> Address \<Rightarrow> bool" where
  "gt a other = (compareWith (byteContainer a) (getOctets other) = Greater)"

definition lt :: "Address \<Rightarrow> Address \<Rightarrow> bool" where
  "lt a other = (compareWith (byteContainer a) (getOctets other) = Lesser)"

definition ge :: "Address \<Rightarrow> Address \<Rightarrow> bool" where
  "ge a other =
     (let result = compareWith (byteContainer a) (getOctets other)
      in result = Greater \<or> result = Equal)"

definition le :: "Address \<Rightarrow> Address \<Rightarrow> bool" where
  "le a other =
     (let result = compareWith (byteContainer a) (getOctets other)
      in result = Lesser \<or> result = Equal)"

text \<open>\<^verbatim>\<open>add\<close>: \<^verbatim>\<open>new (this.constructor as any)(this.byteContainer.add(amount))\<close>, the
  constructor of the receiver's own class applied to a container.\<close>

definition add :: "Address \<Rightarrow> nat list \<Rightarrow> error + Address" where
  "add a amount =
     (case a of
        Address4 c \<Rightarrow> new_Address4 (Container (ByteContainer_add c amount))
      | Address6 c \<Rightarrow> new_Address6 (Container (ByteContainer_add c amount)))"

section \<open>Rendering an IPv6 address\<close>

definition hexOctetToString :: "nat \<Rightarrow> string" where
  "hexOctetToString octet = padStart 2 CHR ''0'' (toString16 octet)"

text \<open>\<^verbatim>\<open>getOctetsPair\<close>: the reduction that opens a new pair at every even index and
  pushes the octet onto the last pair.\<close>

definition getOctetsPair :: "Address \<Rightarrow> nat list list" where
  "getOctetsPair a =
     foldl (\<lambda>total (index, current).
              (let total' = (if index mod 2 = 0 then total @ [[]] else total)
               in butlast total' @ [last total' @ [current]]))
       [] (enumerate 0 (getOctets a))"

definition getFullString :: "Address \<Rightarrow> string" where
  "getFullString a =
     js_join '':'' (map (\<lambda>item. concat (map hexOctetToString item)) (getOctetsPair a))"

text \<open>\<^verbatim>\<open>.replace(/^0{1,3}/, "")\<close>: \<open>replace_zeros 3\<close> removes up to three leading zeros.\<close>

fun replace_zeros :: "nat \<Rightarrow> string \<Rightarrow> string" where
  "replace_zeros 0 s = s"
| "replace_zeros (Suc n) [] = []"
| "replace_zeros (Suc n) (c # cs) = (if c = CHR ''0'' then replace_zeros n cs else c # cs)"

definition group_string :: "nat list \<Rightarrow> string" where
  "group_string item = replace_zeros 3 (concat (map hexOctetToString item))"

definition rfc_output :: "Address \<Rightarrow> string" where
  "rfc_output a = js_join '':'' (map group_string (getOctetsPair a))"

datatype ParseState = OctetBegin | Shorten | NotShorten

record Shorten_rec =
  sh_begin :: nat
  sh_end :: nat
  sh_length :: nat

text \<open>The scanning loop of \<^verbatim>\<open>calculateRfc5952\<close> over the characters that remain, with
  the loop's variables \<^verbatim>\<open>index\<close>, \<^verbatim>\<open>state\<close>, \<^verbatim>\<open>shortenBegin\<close> and \<^verbatim>\<open>shortens\<close>.\<close>

fun rfc_scan ::
  "string \<Rightarrow> nat \<Rightarrow> ParseState \<Rightarrow> nat \<Rightarrow> Shorten_rec list
     \<Rightarrow> ParseState \<times> nat \<times> Shorten_rec list"
where
  "rfc_scan [] index state shortenBegin shortens = (state, shortenBegin, shortens)"
| "rfc_scan (ch # rest) index state shortenBegin shortens =
     (case state of
        OctetBegin \<Rightarrow>
          if ch = CHR ''0'' then rfc_scan rest (index + 1) Shorten index shortens
          else rfc_scan rest (index + 1) NotShorten shortenBegin shortens
      | Shorten \<Rightarrow>
          if ch = CHR ''0'' \<or> ch = CHR '':''
          then rfc_scan rest (index + 1) Shorten shortenBegin shortens
          else (let shortenLength = index - shortenBegin
                in rfc_scan rest (index + 1) NotShorten shortenBegin
                     (if shortenLength > 2
                      then shortens @ [\<lparr>sh_begin = shortenBegin, sh_end = index,
                                         sh_length = shortenLength\<rparr>]
                      else shortens))
      | NotShorten \<Rightarrow>
          if ch = CHR '':'' then rfc_scan rest (index + 1) OctetBegin shortenBegin shortens
          else rfc_scan rest (index + 1) NotShorten shortenBegin shortens)"

text \<open>The step after the loop: a run that is still open at the end of the string.\<close>

definition rfc_finish ::
  "nat \<Rightarrow> ParseState \<times> nat \<times> Shorten_rec list \<Rightarrow> Shorten_rec list" where
  "rfc_finish outputLength r =
     (case r of (state, shortenBegin, shortens) \<Rightarrow>
        if state = Shorten then
          (let shortenLength = outputLength - shortenBegin
           in if shortenLength > 2
              then shortens @ [\<lparr>sh_begin = shortenBegin, sh_end = outputLength,
                                 sh_length = shortenLength\<rparr>]
              else shortens)
        else shortens)"

definition rfc_shortens :: "string \<Rightarrow> Shorten_rec list" where
  "rfc_shortens output = rfc_finish (length output) (rfc_scan output 0 OctetBegin 0 [])"

definition bestShorten :: "Shorten_rec list \<Rightarrow> Shorten_rec" where
  "bestShorten shortens =
     foldl (\<lambda>acc current. if sh_length acc < sh_length current then current else acc)
       (hd shortens) (tl shortens)"

definition rfc_replace :: "string \<Rightarrow> Shorten_rec list \<Rightarrow> string" where
  "rfc_replace output shortens =
     (if length shortens = 0 then output
      else (let best = bestShorten shortens
            in if sh_begin best = 0 then ''::'' @ drop (sh_end best) output
               else take (sh_begin best) output @ '':'' @ drop (sh_end best) output))"

definition calculateRfc5952 :: "Address \<Rightarrow> string" where
  "calculateRfc5952 a = (let output = rfc_output a in rfc_replace output (rfc_shortens output))"

definition getRfc5952 :: "Address \<Rightarrow> string" where
  "getRfc5952 a = calculateRfc5952 a"

definition Address6_getIpString :: "Address \<Rightarrow> string" where
  "Address6_getIpString a = getRfc5952 a"

section \<open>Well-formed addresses and the numeric value of a byte sequence\<close>

text \<open>The data invariant: an \<open>Address4\<close> owns exactly 4 bytes, an \<open>Address6\<close> exactly 16,
  each at most 255.\<close>

definition wellformed :: "Address \<Rightarrow> bool" where
  "wellformed a =
     (case a of
        Address4 c \<Rightarrow> length (bytes c) = IPV4_BYTES \<and> list_all (\<lambda>b. b \<le> 255) (bytes c)
      | Address6 c \<Rightarrow> length (bytes c) = IPV6_BYTES \<and> list_all (\<lambda>b. b \<le> 255) (bytes c))"

definition same_class :: "Address \<Rightarrow> Address \<Rightarrow> bool" where
  "same_class a b =
     (case a of
        Address4 c \<Rightarrow> (case b of Address4 d \<Rightarrow> True | Address6 d \<Rightarrow> False)
      | Address6 c \<Rightarrow> (case b of Address4 d \<Rightarrow> False | Address6 d \<Rightarrow> True))"

text \<open>The big-endian value of a byte sequence \<open>[b\<^sub>0, \<dots>, b\<^sub>N\<^sub>-\<^sub>1]\<close>: the sum of
  \<open>b\<^sub>i * 256 ^ (N - 1 - i)\<close>.\<close>

fun big_endian :: "nat list \<Rightarrow> nat" where
  "big_endian [] = 0"
| "big_endian (b # bs) = b * 256 ^ length bs + big_endian bs"

text \<open>The little-endian value, for the reversed sequences that \<open>add_lsb\<close> works on.\<close>

fun little_endian :: "nat list \<Rightarrow> nat" where
  "little_endian [] = 0"
| "little_endian (b # bs) = b + 256 * little_endian bs"

section \<open>The specification of the compressed form\<close>

text \<open>The maximal runs of consecutive elements that satisfy \<open>z\<close>, from left to right. A run
  is given as \<open>(p, n, q)\<close>: the elements before it, the number of elements in it, and the
  elements after it. \<open>pre\<close> holds the elements already passed.\<close>

function zero_runs ::
  "('a \<Rightarrow> bool) \<Rightarrow> 'a list \<Rightarrow> 'a list \<Rightarrow> ('a list \<times> nat \<times> 'a list) list"
where
  "zero_runs z pre [] = []"
| "zero_runs z pre (g # gs) =
     (if z g
      then (pre, Suc (length (takeWhile z gs)), dropWhile z gs)
             # zero_runs z (pre @ g # takeWhile z gs) (dropWhile z gs)
      else zero_runs z (pre @ [g]) gs)"
  by pat_completeness auto
termination
  by (relation "measure (\<lambda>(z, pre, gs). length gs)")
    (auto simp: less_Suc_eq_le length_dropWhile_le)

text \<open>The 16 bytes taken two by two, and a group all of whose bytes are zero.\<close>

fun octet_pairs :: "nat list \<Rightarrow> nat list list" where
  "octet_pairs (a # b # rest) = [a, b] # octet_pairs rest"
| "octet_pairs [a] = [[a]]"
| "octet_pairs [] = []"

definition is_zero_group :: "nat list \<Rightarrow> bool" where
  "is_zero_group g = list_all (\<lambda>octet. octet = 0) g"

text \<open>The specification's words: among the runs of at least two all-zero groups, the
  longest one, and the leftmost one of the longest, is replaced by \<^verbatim>\<open>::\<close>; the groups before
  and after it are rendered with their leading zeros stripped and joined by colons. With
  no such run the result is the joined form itself.\<close>

definition rfc_candidates :: "nat list list \<Rightarrow> (nat list list \<times> nat \<times> nat list list) list" where
  "rfc_candidates groups = filter (\<lambda>(p, n, q). 2 \<le> n) (zero_runs is_zero_group [] groups)"

definition leftmost_longest :: "('a \<times> nat \<times> 'b) list \<Rightarrow> ('a \<times> nat \<times> 'b) option" where
  "leftmost_longest cs =
     find (\<lambda>(p, n, q). n = Max (set (map (\<lambda>(p, n, q). n) cs))) cs"

definition spec_rfc5952 :: "Address \<Rightarrow> string" where
  "spec_rfc5952 a =
     (let groups = octet_pairs (getOctets a)
      in case leftmost_longest (rfc_candidates groups) of
           None \<Rightarrow> js_join '':'' (map group_string groups)
         | Some (p, n, q) \<Rightarrow>
             js_join '':'' (map group_string p) @ ''::'' @ js_join '':'' (map group_string q))"

text \<open>Auxiliary notions for the proofs: the groups each followed by a colon, what follows
  a group in the joined string, and the record the scanning loop makes for a run.\<close>

definition colon_terminated :: "string list \<Rightarrow> string" where
  "colon_terminated gs = concat (map (\<lambda>g. g @ '':'') gs)"

definition colon_led :: "string list \<Rightarrow> string" where
  "colon_led gs = (if gs = [] then [] else '':'' @ js_join '':'' gs)"

definition run_length :: "nat \<Rightarrow> string list \<Rightarrow> nat" where
  "run_length n q = (if q = [] then 2 * n - 1 else 2 * n)"

definition run_record :: "string list \<times> nat \<times> string list \<Rightarrow> Shorten_rec" where
  "run_record r =
     (case r of (p, n, q) \<Rightarrow>
        \<lparr>sh_begin = length (colon_terminated p),
         sh_end = length (colon_terminated p) + run_length n q,
         sh_length = run_length n q\<rparr>)"

definition good_group :: "string \<Rightarrow> bool" where
  "good_group g = (g \<noteq> [] \<and> CHR '':'' \<notin> set g \<and> (g = ''0'' \<or> hd g \<noteq> CHR ''0''))"

text \<open>The records that the loop and the step after it add when the scan starts at the
  beginning of a group, after the groups \<open>pre\<close>; and the same when it stands in state
  \<open>NotShorten\<close> right after a group.\<close>

definition shortens_from ::
  "string list \<Rightarrow> string list \<Rightarrow> nat \<Rightarrow> Shorten_rec list \<Rightarrow> Shorten_rec list" where
  "shortens_from pre gs b acc =
     rfc_finish (length (colon_terminated pre) + length (js_join '':'' gs))
       (rfc_scan (js_join '':'' gs) (length (colon_terminated pre)) OctetBegin b acc)"

definition shortens_after ::
  "nat \<Rightarrow> string list \<Rightarrow> nat \<Rightarrow> Shorten_rec list \<Rightarrow> Shorten_rec list" where
  "shortens_after k gs b acc =
     rfc_finish (k + length (colon_led gs)) (rfc_scan (colon_led gs) k NotShorten b acc)"

text \<open>Auxiliary notion for the proofs: what the loop of the constructor of \<^verbatim>\<open>Address6\<close>
  does with a part that is not empty, as a function of the part and of whether it is
  the last one. It is the body of the loop after the test \<^verbatim>\<open>item === ""\<close>.\<close>

definition group_octets :: "bool \<Rightarrow> string \<Rightarrow> error + nat list" where
  "group_octets is_last item =
     (if CHR ''.'' \<in> set item then
        (if \<not> is_last then Inl AddressValueError
         else (case new_Address4 (String item) of
                 Inl e \<Rightarrow> Inl e
               | Inr a \<Rightarrow> Inr (getOctets a)))
      else if length item > IPV6_SEGMENT_LENGTH then Inl AddressValueError
      else (let item' = replicate (IPV6_SEGMENT_LENGTH - length item) CHR ''0'' @ item;
                firstOctet = toLowerCase (take (IPV6_SEGMENT_LENGTH div 2) item');
                secondOctet = toLowerCase (drop (IPV6_SEGMENT_LENGTH div 2) item')
            in if \<not> isHexadecimalString firstOctet then Inl AddressValueError
               else if \<not> isHexadecimalString secondOctet then Inl AddressValueError
               else Inr [parseInt firstOctet 16, parseInt secondOctet 16]))"

section \<open>Parsing: concrete inputs\<close>

text \<open>Claim C4: \<^verbatim>\<open>Address6("::ffff:192.168.1.1")\<close> constructs, and its octets are
  \<open>[0,0,0,0,0,0,0,0,0,0,255,255,192,168,1,1]\<close>: the dotted quad at the end is parsed
  as an embedded IPv4 address and gives the four low-order bytes.\<close>

theorem embedded_ipv4_octets:
  "new_Address6 (String ''::ffff:192.168.1.1'') =
     Inr (Address6 (ByteContainer [0, 0, 0, 0, 0, 0, 0, 0, 0, 0, 255, 255, 192, 168, 1, 1]))
   \<and> new_Address4 (String ''192.168.1.1'') = Inr (Address4 (ByteContainer [192, 168, 1, 1]))
   \<and> map_sum id getOctets (new_Address6 (String ''::ffff:192.168.1.1'')) =
       Inr [0, 0, 0, 0, 0, 0, 0, 0, 0, 0, 255, 255, 192, 168, 1, 1]"
  by code_simp

text \<open>Claim C9: \<^verbatim>\<open>Address6("")\<close> and \<^verbatim>\<open>Address6(":")\<close> construct without raising, and
  both are the all-zero 16-byte address: the empty parts of the split are recorded as an
  elision at index 0, which is padded to 16 zero bytes.\<close>

theorem empty_and_colon_are_zero:
  "new_Address6 (String []) = Inr (Address6 (ByteContainer (replicate 16 0)))
   \<and> new_Address6 (String '':'') = Inr (Address6 (ByteContainer (replicate 16 0)))
   \<and> Address6_loop 1 (enumerate 0 (js_split CHR '':'' [])) None [] = Inr (Some 0, [])
   \<and> Address6_loop 2 (enumerate 0 (js_split CHR '':'' '':'')) None [] = Inr (Some 0, [])"
  by code_simp

section \<open>Parsing: the error raised\<close>

text \<open>The four invalid inputs that the specification lists raise \<open>AddressValueError\<close>.\<close>

lemma listed_invalid_inputs:
  "new_Address4 (String ''256.0.0.1'') = Inl AddressValueError"
  "new_Address4 (String ''192.168.0'') = Inl AddressValueError"
  "new_Address6 (String ''1:2:3:4:5:6:7:8:9'') = Inl AddressValueError"
  "new_Address6 (String ''1::2::3'') = Inl AddressValueError"
  by code_simp+

text \<open>Claim C2: every invalid input of a constructor raises \<open>AddressValueError\<close> and nothing
  else. The constructor of \<^verbatim>\<open>Address6\<close> does not: with an elision and more than 16 bytes
  of groups, as in \<^verbatim>\<open>"1:2:3:4:5:6:7:8:9:"\<close>, the loop ends with 18 octets and the recorded
  index 9, and \<^verbatim>\<open>Array(IPV6_BYTES - octets.length)\<close> raises \<open>RangeError\<close> before the length
  check that would raise \<open>AddressValueError\<close> is reached.\<close>

theorem too_long_with_elision_raises_RangeError:
  "new_Address6 (String ''1:2:3:4:5:6:7:8:9:'') = Inl RangeError
   \<and> Address6_loop 10 (enumerate 0 (js_split CHR '':'' ''1:2:3:4:5:6:7:8:9:'')) None [] =
       Inr (Some 9, [0, 1, 0, 2, 0, 3, 0, 4, 0, 5, 0, 6, 0, 7, 0, 8, 0, 9])
   \<and> new_Address6 (String ''1:2:3:4:5:6:7:8:9:'') \<noteq> Inl AddressValueError"
  by code_simp

section \<open>The decimal value\<close>

text \<open>For an address of four bytes \<^verbatim>\<open>getDecimal\<close> is the big-endian value.\<close>

lemma getDecimal_four_bytes:
  assumes "length (getOctets a) = 4"
  shows "getDecimal a = of_nat (big_endian (getOctets a))"
proof -
  from assms obtain b0 b1 b2 b3 where "getOctets a = [b0, b1, b2, b3]"
    by (auto simp: length_Suc_conv eval_nat_numeral)
  then show ?thesis
    by (simp add: getDecimal_def js_pow2_def)
qed

text \<open>Claim C1: for every constructed address of width \<open>N\<close>, \<^verbatim>\<open>getDecimal()\<close> is the
  big-endian value, the sum of \<open>octet[i] * 256 ^ (N - 1 - i)\<close>. The exponent in the code is
  \<open>8 * (4 - index - 1)\<close> whatever the width, so that for an \<^verbatim>\<open>Address6\<close> the bytes from
  index 4 on are weighted by negative powers of two: the address of \<^verbatim>\<open>"::1"\<close>, whose
  big-endian value is 1, has the decimal value \<open>2 ^ -96\<close>.\<close>

theorem getDecimal_Address6_loopback:
  "new_Address6 (String ''::1'') =
     Inr (Address6 (ByteContainer [0, 0, 0, 0, 0, 0, 0, 0, 0, 0, 0, 0, 0, 0, 0, 1]))
   \<and> getDecimal (Address6 (ByteContainer [0, 0, 0, 0, 0, 0, 0, 0, 0, 0, 0, 0, 0, 0, 0, 1])) =
       1 / 2 ^ 96
   \<and> big_endian [0, 0, 0, 0, 0, 0, 0, 0, 0, 0, 0, 0, 0, 0, 0, 1] = 1"
proof -
  have parsed: "new_Address6 (String ''::1'') =
      Inr (Address6 (ByteContainer [0, 0, 0, 0, 0, 0, 0, 0, 0, 0, 0, 0, 0, 0, 0, 1]))"
    by code_simp
  have decimal:
    "getDecimal (Address6 (ByteContainer [0, 0, 0, 0, 0, 0, 0, 0, 0, 0, 0, 0, 0, 0, 0, 1])) =
       1 / 2 ^ 96"
    by code_simp
  have "value": "big_endian [0, 0, 0, 0, 0, 0, 0, 0, 0, 0, 0, 0, 0, 0, 0, 1] = 1"
    by simp
  from parsed decimal "value" show ?thesis
    by blast
qed

section \<open>Comparison\<close>

lemma big_endian_bound:
  "list_all (\<lambda>b. b \<le> 255) bs \<Longrightarrow> big_endian bs < 256 ^ length bs"
proof (induction bs)
  case Nil
  show ?case by simp
next
  case (Cons b bs)
  let ?p = "(256::nat) ^ length bs"
  from Cons have "b \<le> 255" and ih: "big_endian bs < ?p"
    by simp_all
  then have "b + 1 \<le> 256"
    by simp
  then have upper: "(b + 1) * ?p \<le> 256 * ?p"
    by (rule mult_le_mono1)
  have "b * ?p + big_endian bs < (b + 1) * ?p"
    using ih by simp
  then have "b * ?p + big_endian bs < 256 * ?p"
    using upper by (rule less_le_trans)
  then show ?case by simp
qed

lemma compareBytes_numeric:
  assumes "length xs = length ys"
    and "list_all (\<lambda>b. b \<le> 255) xs" and "list_all (\<lambda>b. b \<le> 255) ys"
  shows "(compareBytes xs ys = Lesser) = (big_endian xs < big_endian ys)
       \<and> (compareBytes xs ys = Equal) = (big_endian xs = big_endian ys)
       \<and> (compareBytes xs ys = Greater) = (big_endian ys < big_endian xs)"
  using assms
proof (induction xs ys rule: list_induct2)
  case Nil
  show ?case by simp
next
  case (Cons x xs y ys)
  let ?p = "(256::nat) ^ length ys"
  have bx: "big_endian xs < ?p" using Cons big_endian_bound[of xs] by simp
  have by': "big_endian ys < ?p" using Cons big_endian_bound[of ys] by simp
  have len: "length xs = length ys" by fact
  consider (less) "x < y" | (greater) "y < x" | (same) "x = y" by linarith
  then show ?case
  proof cases
    case less
    then have "x + 1 \<le> y" by simp
    then have "(x + 1) * ?p \<le> y * ?p" by (rule mult_le_mono1)
    then have "x * ?p + big_endian xs < y * ?p + big_endian ys"
      using bx by (simp add: algebra_simps)
    with less len show ?thesis by simp
  next
    case greater
    then have "y + 1 \<le> x" by simp
    then have "(y + 1) * ?p \<le> x * ?p" by (rule mult_le_mono1)
    then have "y * ?p + big_endian ys < x * ?p + big_endian xs"
      using by' by (simp add: algebra_simps)
    with greater len show ?thesis by simp
  next
    case same
    with Cons len show ?thesis by simp
  qed
qed

text \<open>Claim C7: for all addresses \<open>A\<close> and \<open>B\<close> of the same concrete class, exactly one of
  \<^verbatim>\<open>A.lt(B)\<close>, \<^verbatim>\<open>A.eq(B)\<close>, \<^verbatim>\<open>A.gt(B)\<close> holds, \<^verbatim>\<open>A.ge(B)\<close> is \<^verbatim>\<open>A.gt(B) || A.eq(B)\<close>, and the
  order is that of the big-endian values of the octets.\<close>

theorem comparison_total_order:
  assumes "wellformed a" and "wellformed b" and "same_class a b"
  shows "((lt a b \<and> \<not> eq a b \<and> \<not> gt a b)
          \<or> (\<not> lt a b \<and> eq a b \<and> \<not> gt a b)
          \<or> (\<not> lt a b \<and> \<not> eq a b \<and> gt a b))
       \<and> ge a b = (gt a b \<or> eq a b)
       \<and> lt a b = (big_endian (getOctets a) < big_endian (getOctets b))
       \<and> eq a b = (big_endian (getOctets a) = big_endian (getOctets b))
       \<and> gt a b = (big_endian (getOctets b) < big_endian (getOctets a))"
proof -
  have len: "length (getOctets a) = length (getOctets b)"
    using assms by (cases a; cases b) (simp_all add: wellformed_def same_class_def getOctets_def)
  have va: "list_all (\<lambda>b. b \<le> 255) (getOctets a)"
    using assms(1) by (cases a) (simp_all add: wellformed_def getOctets_def)
  have vb: "list_all (\<lambda>b. b \<le> 255) (getOctets b)"
    using assms(2) by (cases b) (simp_all add: wellformed_def getOctets_def)
  note num = compareBytes_numeric[OF len va vb]
  have cw: "compareWith (byteContainer a) (getOctets b) = compareBytes (getOctets a) (getOctets b)"
    by (simp add: compareWith_def getOctets_def)
  have tri: "(lt a b \<and> \<not> eq a b \<and> \<not> gt a b)
          \<or> (\<not> lt a b \<and> eq a b \<and> \<not> gt a b)
          \<or> (\<not> lt a b \<and> \<not> eq a b \<and> gt a b)"
    by (cases "compareWith (byteContainer a) (getOctets b)") (simp_all add: lt_def eq_def gt_def)
  have ge: "ge a b = (gt a b \<or> eq a b)"
    by (simp add: ge_def gt_def eq_def Let_def)
  from tri ge num show ?thesis
    by (simp add: lt_def eq_def gt_def cw)
qed

theorem comparison_total_order_witness:
  "wellformed (Address4 (ByteContainer [127, 0, 0, 1]))
   \<and> wellformed (Address4 (ByteContainer [127, 0, 0, 2]))
   \<and> same_class (Address4 (ByteContainer [127, 0, 0, 1])) (Address4 (ByteContainer [127, 0, 0, 2]))
   \<and> lt (Address4 (ByteContainer [127, 0, 0, 1])) (Address4 (ByteContainer [127, 0, 0, 2]))
   \<and> \<not> eq (Address4 (ByteContainer [127, 0, 0, 1])) (Address4 (ByteContainer [127, 0, 0, 2]))
   \<and> \<not> gt (Address4 (ByteContainer [127, 0, 0, 1])) (Address4 (ByteContainer [127, 0, 0, 2]))
   \<and> \<not> ge (Address4 (ByteContainer [127, 0, 0, 1])) (Address4 (ByteContainer [127, 0, 0, 2]))
   \<and> big_endian [127, 0, 0, 1] < big_endian [127, 0, 0, 2]"
proof -
  have w1: "wellformed (Address4 (ByteContainer [127, 0, 0, 1]))"
    by (simp add: wellformed_def IPV4_BYTES_def)
  have w2: "wellformed (Address4 (ByteContainer [127, 0, 0, 2]))"
    by (simp add: wellformed_def IPV4_BYTES_def)
  have sc: "same_class (Address4 (ByteContainer [127, 0, 0, 1])) (Address4 (ByteContainer [127, 0, 0, 2]))"
    by (simp add: same_class_def)
  have l: "lt (Address4 (ByteContainer [127, 0, 0, 1])) (Address4 (ByteContainer [127, 0, 0, 2]))"
    by (simp add: lt_def compareWith_def getOctets_def)
  from comparison_total_order[OF w1 w2 sc] w1 w2 sc l show ?thesis
    by (simp add: getOctets_def)
qed


section \<open>Addition\<close>

lemma little_endian_append:
  "little_endian (xs @ ys) = little_endian xs + 256 ^ length xs * little_endian ys"
  by (induction xs) (simp_all add: algebra_simps)

lemma big_endian_rev: "big_endian bs = little_endian (rev bs)"
  by (induction bs) (simp_all add: little_endian_append)

lemma length_add_lsb: "length (add_lsb xs ys c) = length xs"
  by (induction xs ys c rule: add_lsb.induct) simp_all

lemma add_lsb_bytes: "list_all (\<lambda>b. b \<le> 255) (add_lsb xs ys c)"
  by (induction xs ys c rule: add_lsb.induct) (simp_all add: less_Suc_eq_le[symmetric])

lemma step_mod:
  fixes s r :: nat
  shows "s mod 256 + 256 * ((r + s div 256) mod 256 ^ n) = (s + 256 * r) mod 256 ^ Suc n"
proof -
  have "(s + 256 * r) mod (256 * 256 ^ n) =
      256 * ((s + 256 * r) div 256 mod 256 ^ n) + (s + 256 * r) mod 256"
    by (rule mod_mult2_eq)
  moreover have "(s + 256 * r) div 256 = r + s div 256" by simp
  moreover have "(s + 256 * r) mod 256 = s mod 256" by simp
  ultimately show ?thesis by simp
qed

lemma little_endian_add_lsb:
  "length ys \<le> length xs \<Longrightarrow>
   little_endian (add_lsb xs ys c) = (little_endian xs + little_endian ys + c) mod 256 ^ length xs"
proof (induction xs ys c rule: add_lsb.induct)
  case (1 ys carry)
  then show ?case by simp
next
  case (2 x xs carry)
  then show ?case
    using step_mod[of "x + carry" "little_endian xs" "length xs"]
    by (simp add: algebra_simps)
next
  case (3 x xs y ys carry)
  then show ?case
    using step_mod[of "x + y + carry" "little_endian xs + little_endian ys" "length xs"]
    by (simp add: algebra_simps)
qed

lemma ByteContainer_add_value:
  assumes "length amount \<le> length (bytes c)"
  shows "big_endian (bytes (ByteContainer_add c amount)) =
         (big_endian (bytes c) + big_endian amount) mod 256 ^ length (bytes c)"
  using little_endian_add_lsb[of "rev amount" "rev (bytes c)" 0] assms
  by (simp add: ByteContainer_add_def big_endian_rev)

text \<open>Claim C5: \<^verbatim>\<open>add()\<close> is addition at the fixed width of the address: the carry past
  the most significant byte is dropped and nothing is raised, so the result is again an
  address of the same class whose value is the sum modulo \<open>256 ^ N\<close>. In particular
  \<^verbatim>\<open>Address4([255,255,255,255]).add([1])\<close> has the octets \<open>[0,0,0,0]\<close>, which the witness
  computes.\<close>

theorem add_wraps_around:
  assumes "wellformed a" and "list_all (\<lambda>b. b \<le> 255) amount"
    and "length amount \<le> length (getOctets a)"
  shows "\<exists>r. add a amount = Inr r \<and> wellformed r \<and> same_class a r
           \<and> big_endian (getOctets r) =
               (big_endian (getOctets a) + big_endian amount) mod 256 ^ length (getOctets a)"
proof (cases a)
  case (Address4 c)
  with assms show ?thesis
    using ByteContainer_add_value[of amount c]
    by (simp add: add_def wellformed_def same_class_def getOctets_def
        ByteContainer_add_def length_add_lsb add_lsb_bytes)
next
  case (Address6 c)
  with assms show ?thesis
    using ByteContainer_add_value[of amount c]
    by (simp add: add_def wellformed_def same_class_def getOctets_def
        ByteContainer_add_def length_add_lsb add_lsb_bytes)
qed

theorem add_wraps_around_witness:
  "new_Address4 (Array [255, 255, 255, 255]) = Inr (Address4 (ByteContainer [255, 255, 255, 255]))
   \<and> wellformed (Address4 (ByteContainer [255, 255, 255, 255]))
   \<and> add (Address4 (ByteContainer [255, 255, 255, 255])) [1] = Inr (Address4 (ByteContainer [0, 0, 0, 0]))
   \<and> (big_endian [255, 255, 255, 255] + big_endian [1]) mod 256 ^ 4 = big_endian [0, 0, 0, 0]"
proof -
  let ?a = "Address4 (ByteContainer [255, 255, 255, 255])"
  have w: "wellformed ?a"
    by (simp add: wellformed_def IPV4_BYTES_def)
  have am: "list_all (\<lambda>b. b \<le> 255) [1::nat]" by simp
  have le: "length [1::nat] \<le> length (getOctets ?a)" by (simp add: getOctets_def)
  have n: "new_Address4 (Array [255, 255, 255, 255]) = Inr ?a"
    by code_simp
  have r: "add ?a [1] = Inr (Address4 (ByteContainer [0, 0, 0, 0]))"
    by code_simp
  from add_wraps_around[OF w am le] n w r show ?thesis
    by (simp add: getOctets_def)
qed

section \<open>Round trip of IPv4 strings\<close>

lemma js_split_not_Nil: "js_split sep s \<noteq> []"
  by (induction s) (auto split: list.splits)

lemma js_join_Cons_Cons: "js_join sep ((c # p) # ps) = c # js_join sep (p # ps)"
  by (cases ps) simp_all

lemma js_join_split: "js_join [sep] (js_split sep s) = s"
proof (induction s)
  case Nil
  show ?case by simp
next
  case (Cons c cs)
  obtain p ps where split: "js_split sep cs = p # ps"
    using js_split_not_Nil[of sep cs] by (cases "js_split sep cs") auto
  show ?case
  proof (cases "c = sep")
    case True
    with Cons split show ?thesis by simp
  next
    case False
    with Cons split show ?thesis by (simp add: js_join_Cons_Cons)
  qed
qed

lemma decimal_digit_cases:
  assumes "c \<in> set ''0123456789''"
  shows "c = CHR ''0'' \<or> c = CHR ''1'' \<or> c = CHR ''2'' \<or> c = CHR ''3'' \<or> c = CHR ''4''
       \<or> c = CHR ''5'' \<or> c = CHR ''6'' \<or> c = CHR ''7'' \<or> c = CHR ''8'' \<or> c = CHR ''9''"
  using assms by simp

lemma digit_value_decimal: "digit_value CHR ''0'' = 0" "digit_value CHR ''1'' = 1" "digit_value CHR ''2'' = 2"
  "digit_value CHR ''3'' = 3" "digit_value CHR ''4'' = 4" "digit_value CHR ''5'' = 5"
  "digit_value CHR ''6'' = 6" "digit_value CHR ''7'' = 7" "digit_value CHR ''8'' = 8"
  "digit_value CHR ''9'' = 9"
  by (simp_all add: digit_value_def)

lemma digit_char_decimal:
  "digit_char (digit_value CHR ''0'') = CHR ''0''" "digit_char (digit_value CHR ''1'') = CHR ''1''"
  "digit_char (digit_value CHR ''2'') = CHR ''2''" "digit_char (digit_value CHR ''3'') = CHR ''3''"
  "digit_char (digit_value CHR ''4'') = CHR ''4''" "digit_char (digit_value CHR ''5'') = CHR ''5''"
  "digit_char (digit_value CHR ''6'') = CHR ''6''" "digit_char (digit_value CHR ''7'') = CHR ''7''"
  "digit_char (digit_value CHR ''8'') = CHR ''8''" "digit_char (digit_value CHR ''9'') = CHR ''9''"
  by (simp_all add: digit_value_def digit_char_def)

lemma decimal_digit_value:
  assumes "c \<in> set ''0123456789''"
  shows "digit_value c < 10" and "digit_char (digit_value c) = c"
    and "c \<noteq> CHR ''0'' \<Longrightarrow> 1 \<le> digit_value c"
proof -
  note cases = decimal_digit_cases[OF assms]
  from cases show "digit_value c < 10"
    by (elim disjE) (simp_all add: digit_value_decimal)
  from cases show "digit_char (digit_value c) = c"
    by (elim disjE) (simp_all only: digit_char_decimal)
  assume "c \<noteq> CHR ''0''"
  with cases show "1 \<le> digit_value c"
    by (elim disjE) (simp_all add: digit_value_decimal)
qed

lemma parse_foldl_ge: "a \<le> foldl (\<lambda>acc c. acc * 10 + digit_value c) a s"
proof (induction s arbitrary: a)
  case Nil
  show ?case by simp
next
  case (Cons c s)
  have "a \<le> a * 10 + digit_value c" by simp
  also have "\<dots> \<le> foldl (\<lambda>acc c. acc * 10 + digit_value c) (a * 10 + digit_value c) s"
    by (rule Cons.IH)
  finally show ?case by simp
qed

lemma parseInt_snoc: "parseInt (q @ [c]) r = parseInt q r * r + digit_value c"
  by (simp add: parseInt_def)

lemma parseInt_positive:
  assumes "q \<noteq> []" and "hd q \<in> set ''0123456789''" and "hd q \<noteq> CHR ''0''"
  shows "1 \<le> parseInt q 10"
proof -
  obtain c cs where q: "q = c # cs" using assms(1) by (cases q) auto
  have "1 \<le> digit_value c" using assms q decimal_digit_value(3)[of c] by simp
  also have "\<dots> \<le> foldl (\<lambda>acc c. acc * 10 + digit_value c) (digit_value c) cs"
    by (rule parse_foldl_ge)
  finally show ?thesis by (simp add: parseInt_def q)
qed

lemma toString10_parseInt:
  assumes "list_all (\<lambda>c. c \<in> set ''0123456789'') p" and "p \<noteq> []"
    and "p = ''0'' \<or> hd p \<noteq> CHR ''0''"
  shows "toString10 (parseInt p 10) = p"
  using assms
proof (induction p rule: rev_induct)
  case Nil
  then show ?case by simp
next
  case (snoc c q)
  have dc: "c \<in> set ''0123456789''" using snoc.prems(1) by simp
  show ?case
  proof (cases "q = []")
    case True
    with dc show ?thesis
      using decimal_digit_value(1,2)[OF dc]
      by (simp add: parseInt_def toString10.simps[of "digit_value c"])
  next
    case False
    then have hdq: "hd (q @ [c]) = hd q" by simp
    have "q @ [c] \<noteq> ''0''" using False by (cases q) auto
    with snoc.prems(3) hdq have nz: "hd q \<noteq> CHR ''0''" by simp
    have dq: "list_all (\<lambda>c. c \<in> set ''0123456789'') q" using snoc.prems(1) by simp
    then have dh: "hd q \<in> set ''0123456789''" using False by (cases q) auto
    have ih: "toString10 (parseInt q 10) = q"
      using snoc.IH[OF dq False] nz by simp
    have pos: "1 \<le> parseInt q 10" by (rule parseInt_positive[OF False dh nz])
    let ?n = "parseInt q 10 * 10 + digit_value c"
    have "\<not> ?n < 10" using pos by simp
    moreover have "?n div 10 = parseInt q 10" "?n mod 10 = digit_value c"
      using decimal_digit_value(1)[OF dc] by simp_all
    ultimately have "toString10 ?n = toString10 (parseInt q 10) @ [digit_char (digit_value c)]"
      by (subst toString10.simps) simp
    with ih decimal_digit_value(2)[OF dc] show ?thesis
      by (simp add: parseInt_snoc)
  qed
qed

lemma map_throw_Inr:
  "map_throw f xs = Inr ys \<Longrightarrow> list_all2 (\<lambda>x y. f x = Inr y) xs ys"
  by (induction xs arbitrary: ys) (auto split: sum.splits)

lemma Address4_octet_Inr:
  assumes "Address4_octet p = Inr n"
  shows "isDecimalString p" and "n = parseInt p 10" and "n \<le> 255"
  using assms by (auto simp: Address4_octet_def Let_def isValidByte_def split: if_splits)

lemma new_ByteContainer_nat:
  "new_ByteContainer (map int octets) = Inr c \<Longrightarrow> bytes c = octets"
  by (auto simp: new_ByteContainer_def comp_def split: if_splits)

text \<open>Claim C6: for every valid dotted-quad string \<open>s\<close> in which no octet has a leading
  zero (each part is \<^verbatim>\<open>"0"\<close> or does not start with \<^verbatim>\<open>0\<close>), parsing and rendering is the
  identity: \<^verbatim>\<open>Address4(s).getIpString() == s\<close>.\<close>

theorem Address4_roundtrip:
  assumes "new_Address4 (String s) = Inr a"
    and "list_all (\<lambda>p. p = ''0'' \<or> hd p \<noteq> CHR ''0'') (js_split CHR ''.'' s)"
  shows "Address4_getIpString a = s"
proof -
  let ?parts = "js_split CHR ''.'' s"
  from assms(1) obtain octets c where
    octs: "map_throw Address4_octet ?parts = Inr octets"
    and c: "new_ByteContainer (map int octets) = Inr c" and a: "a = Address4 c"
    by (auto simp: Let_def split: if_splits sum.splits)
  have get: "getOctets a = octets"
    using new_ByteContainer_nat[OF c] a by (simp add: getOctets_def)
  have rel: "list_all2 (\<lambda>p n. Address4_octet p = Inr n) ?parts octets"
    by (rule map_throw_Inr[OF octs])
  have len: "length ?parts = length octets"
    using rel by (rule list_all2_lengthD)
  have "map toString10 octets = ?parts"
  proof (rule nth_equalityI)
    show "length (map toString10 octets) = length ?parts" using len by simp
  next
    fix i assume "i < length (map toString10 octets)"
    then have i: "i < length ?parts" using len by simp
    let ?p = "?parts ! i"
    have oct: "Address4_octet ?p = Inr (octets ! i)"
      using rel i by (simp add: list_all2_conv_all_nth)
    have nlz: "?p = ''0'' \<or> hd ?p \<noteq> CHR ''0''"
      using assms(2) i by (simp add: list_all_length)
    from Address4_octet_Inr[OF oct] have "isDecimalString ?p" and "octets ! i = parseInt ?p 10"
      by simp_all
    then have "toString10 (octets ! i) = ?p"
      using toString10_parseInt[of ?p] nlz by (simp add: isDecimalString_def)
    then show "map toString10 octets ! i = ?parts ! i"
      using i len by simp
  qed
  then show ?thesis
    using js_join_split[of "CHR ''.''" s] by (simp add: Address4_getIpString_def get)
qed

theorem Address4_roundtrip_witness:
  "new_Address4 (String ''192.168.0.1'') = Inr (Address4 (ByteContainer [192, 168, 0, 1]))
   \<and> list_all (\<lambda>p. p = ''0'' \<or> hd p \<noteq> CHR ''0'') (js_split CHR ''.'' ''192.168.0.1'')
   \<and> Address4_getIpString (Address4 (ByteContainer [192, 168, 0, 1])) = ''192.168.0.1''"
proof -
  have n: "new_Address4 (String ''192.168.0.1'') = Inr (Address4 (ByteContainer [192, 168, 0, 1]))"
    by code_simp
  have z: "list_all (\<lambda>p. p = ''0'' \<or> hd p \<noteq> CHR ''0'') (js_split CHR ''.'' ''192.168.0.1'')"
    by code_simp
  from Address4_roundtrip[OF n z] n z show ?thesis
    by simp
qed

section \<open>The scanning loop records the runs of zero groups\<close>

lemma scan_append:
  "rfc_scan (xs @ ys) i st b acc =
     (case rfc_scan xs i st b acc of (st', b', acc') \<Rightarrow> rfc_scan ys (i + length xs) st' b' acc')"
  by (induction xs arbitrary: i st b acc) (simp_all add: Let_def split: ParseState.splits)

lemma scan_NotShorten:
  "CHR '':'' \<notin> set xs \<Longrightarrow> rfc_scan xs i NotShorten b acc = (NotShorten, b, acc)"
  by (induction xs arbitrary: i) auto

lemma scan_Shorten:
  "set xs \<subseteq> {CHR ''0'', CHR '':''} \<Longrightarrow> rfc_scan xs i Shorten b acc = (Shorten, b, acc)"
  by (induction xs arbitrary: i) auto

lemma scan_nonzero_OctetBegin:
  assumes "good_group g" and "g \<noteq> ''0''"
  shows "rfc_scan g i OctetBegin b acc = (NotShorten, b, acc)"
proof -
  from assms obtain c cs where g: "g = c # cs" and c: "c \<noteq> CHR ''0''" and cs: "CHR '':'' \<notin> set cs"
    by (cases g) (auto simp: good_group_def)
  show ?thesis
    by (simp add: g c scan_NotShorten[OF cs])
qed

lemma scan_nonzero_Shorten:
  assumes "good_group g" and "g \<noteq> ''0''"
  shows "rfc_scan g i Shorten b acc =
     (NotShorten, b,
      if 2 < i - b then acc @ [\<lparr>sh_begin = b, sh_end = i, sh_length = i - b\<rparr>] else acc)"
proof -
  from assms obtain c cs where g: "g = c # cs" and c: "c \<noteq> CHR ''0''" "c \<noteq> CHR '':''"
    and cs: "CHR '':'' \<notin> set cs"
    by (cases g) (auto simp: good_group_def)
  show ?thesis
    by (simp add: g c scan_NotShorten[OF cs] Let_def)
qed


lemma js_join_Cons: "js_join '':'' (g # gs) = g @ colon_led gs"
  by (cases gs) (simp_all add: colon_led_def)

lemma colon_led_Cons: "colon_led (g # gs) = CHR '':'' # g @ colon_led gs"
  by (simp add: colon_led_def js_join_Cons)

lemma js_join_append: "xs \<noteq> [] \<Longrightarrow> js_join '':'' (xs @ ys) = js_join '':'' xs @ colon_led ys"
proof (induction xs)
  case Nil
  then show ?case by simp
next
  case (Cons x xs)
  show ?case
  proof (cases "xs = []")
    case True
    then show ?thesis by (simp add: js_join_Cons colon_led_def)
  next
    case False
    with Cons show ?thesis by (simp add: js_join_Cons colon_led_def)
  qed
qed

lemma colon_terminated_snoc:
  "length (colon_terminated (pre @ [g])) = length (colon_terminated pre) + length g + 1"
  by (simp add: colon_terminated_def)

lemma colon_terminated_append:
  "colon_terminated (xs @ ys) = colon_terminated xs @ colon_terminated ys"
  by (simp add: colon_terminated_def)

lemma colon_terminated_zeros:
  "length (colon_terminated (replicate n ''0'')) = 2 * n"
  by (induction n) (simp_all add: colon_terminated_def)

lemma join_zeros:
  "js_join '':'' (''0'' # replicate m ''0'') = CHR ''0'' # concat (replicate m '':0'')"
  by (induction m) (simp_all add: js_join_Cons colon_led_def)

lemma length_join_zeros: "length (js_join '':'' (''0'' # replicate m ''0'')) = 2 * m + 1"
  by (induction m) (simp_all add: js_join_Cons colon_led_def)

lemma set_colon_zeros: "set (concat (replicate m '':0'')) \<subseteq> {CHR ''0'', CHR '':''}"
  by (induction m) auto

lemma scan_zeros:
  "rfc_scan (js_join '':'' (''0'' # replicate m ''0'')) i OctetBegin b acc = (Shorten, i, acc)"
  unfolding join_zeros
  by (simp add: scan_Shorten[OF set_colon_zeros])

lemma shortens_after_eq:
  "shortens_after (length (colon_terminated pre) + length g) rest b acc =
   shortens_from (pre @ [g]) rest b acc"
proof (cases rest)
  case Nil
  then show ?thesis
    by (simp add: shortens_after_def shortens_from_def colon_led_def rfc_finish_def)
next
  case (Cons h hs)
  then show ?thesis
    by (simp add: shortens_after_def shortens_from_def colon_led_def colon_terminated_snoc)
qed

lemma step_nonzero:
  assumes "good_group g" and "g \<noteq> ''0''"
  shows "shortens_from pre (g # rest) b acc = shortens_from (pre @ [g]) rest b acc"
proof -
  have "shortens_from pre (g # rest) b acc =
      shortens_after (length (colon_terminated pre) + length g) rest b acc"
    by (simp add: shortens_from_def shortens_after_def js_join_Cons scan_append
        scan_nonzero_OctetBegin[OF assms] add.assoc)
  then show ?thesis by (simp add: shortens_after_eq)
qed

lemma step_zero_end:
  "shortens_from pre (''0'' # replicate m ''0'') b acc =
     (if 1 \<le> m then acc @ [run_record (pre, Suc m, [])] else acc)"
  by (simp add: shortens_from_def scan_zeros length_join_zeros rfc_finish_def Let_def
      run_record_def run_length_def)

lemma step_zero_mid:
  assumes "good_group h" and "h \<noteq> ''0''"
  shows "shortens_from pre (''0'' # replicate m ''0'' @ h # rest) b acc =
     shortens_from (pre @ ''0'' # replicate m ''0'' @ [h]) rest (length (colon_terminated pre))
       (if 1 \<le> m then acc @ [run_record (pre, Suc m, h # rest)] else acc)"
proof -
  let ?L = "length (colon_terminated pre)"
  let ?zs = "''0'' # replicate m ''0''"
  let ?acc = "if 1 \<le> m then acc @ [run_record (pre, Suc m, h # rest)] else acc"
  have join: "js_join '':'' (?zs @ h # rest) = js_join '':'' ?zs @ '':'' @ h @ colon_led rest"
    by (subst js_join_append) (simp_all add: colon_led_Cons)
  have scan: "rfc_scan (js_join '':'' (?zs @ h # rest)) ?L OctetBegin b acc =
      rfc_scan (colon_led rest) (?L + (2 * m + 2) + length h) NotShorten ?L ?acc"
    unfolding join
    by (simp add: scan_append scan_zeros length_join_zeros scan_nonzero_Shorten[OF assms]
        run_record_def run_length_def add.assoc)
  have len: "length (js_join '':'' (?zs @ h # rest)) = (2 * m + 2) + length h + length (colon_led rest)"
    unfolding join by (simp add: length_join_zeros)
  have "shortens_from pre (?zs @ h # rest) b acc =
      shortens_after (?L + (2 * m + 2) + length h) rest ?L ?acc"
    unfolding shortens_from_def shortens_after_def scan len
    by (simp add: add.assoc)
  also have "?L + (2 * m + 2) = length (colon_terminated (pre @ ?zs))"
    using colon_terminated_zeros[of "Suc m"] by (simp add: colon_terminated_append)
  also have "shortens_after (length (colon_terminated (pre @ ?zs)) + length h)
      rest ?L ?acc = shortens_from ((pre @ ?zs) @ [h]) rest ?L ?acc"
    by (rule shortens_after_eq)
  finally show ?thesis
    by simp
qed

lemma zero_runs_zero_end:
  "zero_runs (\<lambda>g. g = ''0'') pre (''0'' # replicate m ''0'') = [(pre, Suc m, [])]"
  by simp

lemma zero_runs_zero_mid:
  assumes "h \<noteq> ''0''"
  shows "zero_runs (\<lambda>g. g = ''0'') pre (''0'' # replicate m ''0'' @ h # rest) =
     (pre, Suc m, h # rest) # zero_runs (\<lambda>g. g = ''0'') (pre @ ''0'' # replicate m ''0'' @ [h]) rest"
proof -
  have tw: "takeWhile (\<lambda>g. g = ''0'') (replicate m ''0'' @ h # rest) = replicate m ''0''"
    using assms by (induction m) simp_all
  have dw: "dropWhile (\<lambda>g. g = ''0'') (replicate m ''0'' @ h # rest) = h # rest"
    using assms by (induction m) simp_all
  show ?thesis
    using assms by (simp add: tw dw)
qed

lemma groups_cases:
  fixes gs :: "string list"
  obtains (empty) "gs = []"
  | (nonzero) g rest where "gs = g # rest" and "g \<noteq> ''0''"
  | (zero_end) m where "gs = ''0'' # replicate m ''0''"
  | (zero_mid) m h rest where "gs = ''0'' # replicate m ''0'' @ h # rest" and "h \<noteq> ''0''"
proof (cases gs)
  case Nil
  then show ?thesis by (rule empty)
next
  case (Cons g rest)
  show ?thesis
  proof (cases "g = ''0''")
    case False
    with Cons show ?thesis by (intro nonzero)
  next
    case True
    let ?t = "takeWhile (\<lambda>g. g = ''0'') rest"
    let ?d = "dropWhile (\<lambda>g. g = ''0'') rest"
    have "\<forall>y\<in>set ?t. y = ''0''" by (auto dest: set_takeWhileD)
    then have t: "replicate (length ?t) ''0'' = ?t" by (rule replicate_length_same)
    have rest: "rest = replicate (length ?t) ''0'' @ ?d" by (simp add: t)
    show ?thesis
    proof (cases ?d)
      case Nil
      with rest True Cons have "gs = ''0'' # replicate (length ?t) ''0''" by simp
      then show ?thesis by (rule zero_end)
    next
      case (Cons h rest')
      have "\<not> hd ?d = ''0''" using Cons hd_dropWhile[of "\<lambda>g. g = ''0''" rest] by simp
      with Cons have h: "h \<noteq> ''0''" by simp
      from rest True \<open>gs = g # rest\<close> Cons
      have "gs = ''0'' # replicate (length ?t) ''0'' @ h # rest'" by simp
      then show ?thesis using h by (rule zero_mid)
    qed
  qed
qed

lemma shortens_from_runs:
  "list_all good_group gs \<Longrightarrow>
   shortens_from pre gs b acc =
     acc @ map run_record (filter (\<lambda>(p, n, q). 2 \<le> n) (zero_runs (\<lambda>g. g = ''0'') pre gs))"
proof (induction "length gs" arbitrary: gs pre b acc rule: less_induct)
  case less
  show ?case
  proof (cases gs rule: groups_cases)
    case empty
    then show ?thesis
      by (simp add: shortens_from_def rfc_finish_def)
  next
    case (nonzero g rest)
    with less.prems have g: "good_group g" and rest: "list_all good_group rest" by simp_all
    have "shortens_from pre gs b acc = shortens_from (pre @ [g]) rest b acc"
      unfolding nonzero(1) by (rule step_nonzero[OF g nonzero(2)])
    also have "\<dots> = acc @ map run_record (filter (\<lambda>(p, n, q). 2 \<le> n)
        (zero_runs (\<lambda>g. g = ''0'') (pre @ [g]) rest))"
      by (rule less.hyps[OF _ rest]) (simp add: nonzero(1))
    finally show ?thesis
      using nonzero by simp
  next
    case (zero_end m)
    show ?thesis
      unfolding zero_end step_zero_end zero_runs_zero_end by simp
  next
    case (zero_mid m h rest)
    with less.prems have h: "good_group h" and rest: "list_all good_group rest" by simp_all
    let ?acc = "if 1 \<le> m then acc @ [run_record (pre, Suc m, h # rest)] else acc"
    have "shortens_from pre gs b acc =
        shortens_from (pre @ ''0'' # replicate m ''0'' @ [h]) rest (length (colon_terminated pre)) ?acc"
      unfolding zero_mid(1) by (rule step_zero_mid[OF h zero_mid(2)])
    also have "\<dots> = ?acc @ map run_record (filter (\<lambda>(p, n, q). 2 \<le> n)
        (zero_runs (\<lambda>g. g = ''0'') (pre @ ''0'' # replicate m ''0'' @ [h]) rest))"
      by (rule less.hyps[OF _ rest]) (simp add: zero_mid(1))
    finally show ?thesis
      unfolding zero_mid(1) zero_runs_zero_mid[OF zero_mid(2)] by simp
  qed
qed

lemma rfc_shortens_runs:
  assumes "list_all good_group gs"
  shows "rfc_shortens (js_join '':'' gs) =
     map run_record (filter (\<lambda>(p, n, q). 2 \<le> n) (zero_runs (\<lambda>g. g = ''0'') [] gs))"
  using shortens_from_runs[OF assms, of "[]" 0 "[]"]
  by (simp add: rfc_shortens_def shortens_from_def colon_terminated_def)

section \<open>Properties of the runs and of the choice among them\<close>

lemma zero_runs_decomp:
  "(p, n, q) \<in> set (zero_runs z pre gs) \<Longrightarrow>
   \<exists>run. pre @ gs = p @ run @ q \<and> length run = n \<and> 1 \<le> n \<and> list_all z run"
proof (induction z pre gs rule: zero_runs.induct)
  case (1 z pre)
  then show ?case by simp
next
  case (2 z pre g gs)
  show ?case
  proof (cases "z g")
    case False
    with 2 show ?thesis by simp
  next
    case True
    let ?t = "takeWhile z gs" and ?d = "dropWhile z gs"
    from 2(3) True consider (head) "(p, n, q) = (pre, Suc (length ?t), ?d)"
      | (later) "(p, n, q) \<in> set (zero_runs z (pre @ g # ?t) ?d)"
      by auto
    then show ?thesis
    proof cases
      case head
      have "list_all z (g # ?t)"
        using True by (auto simp: list_all_iff dest: set_takeWhileD)
      moreover have "pre @ g # gs = pre @ (g # ?t) @ ?d" by simp
      ultimately show ?thesis using head by (intro exI[of _ "g # ?t"]) simp
    next
      case later
      from 2(1)[OF True later] show ?thesis by simp
    qed
  qed
qed

lemma zero_runs_sorted:
  "sorted_wrt (\<lambda>a c. snd (snd a) \<noteq> []) (zero_runs z pre gs)"
proof (induction z pre gs rule: zero_runs.induct)
  case (1 z pre)
  show ?case by simp
next
  case (2 z pre g gs)
  show ?case
  proof (cases "z g")
    case False
    with 2 show ?thesis by simp
  next
    case True
    have "dropWhile z gs \<noteq> []"
      if c: "c \<in> set (zero_runs z (pre @ g # takeWhile z gs) (dropWhile z gs))" for c
    proof
      assume "dropWhile z gs = []"
      then have "zero_runs z (pre @ g # takeWhile z gs) (dropWhile z gs) = []"
        by (simp only: zero_runs.simps)
      with c show False by simp
    qed
    then have "\<forall>c\<in>set (zero_runs z (pre @ g # takeWhile z gs) (dropWhile z gs)).
        dropWhile z gs \<noteq> []"
      by blast
    with 2(1)[OF True] True show ?thesis by simp
  qed
qed

lemma pick_map:
  assumes "sorted_wrt (\<lambda>a c. (k' (f a) < k' (f c)) = (k a < k c)) (x # xs)"
  shows "foldl (\<lambda>acc cur. if k' acc < k' cur then cur else acc) (f x) (map f xs) =
         f (foldl (\<lambda>acc cur. if k acc < (k cur :: nat) then cur else acc) x xs)"
  using assms
proof (induction xs arbitrary: x)
  case Nil
  show ?case by simp
next
  case (Cons y ys)
  let ?R = "\<lambda>a c. (k' (f a) < k' (f c)) = (k a < k c)"
  from Cons.prems have xy: "?R x y" and x: "\<forall>c\<in>set ys. ?R x c" and y: "sorted_wrt ?R (y # ys)"
    by simp_all
  show ?case
  proof (cases "k x < k y")
    case True
    with xy have "k' (f x) < k' (f y)" by simp
    with True Cons.IH[OF y] show ?thesis by simp
  next
    case False
    with xy have nlt: "\<not> k' (f x) < k' (f y)" by simp
    from x y have "sorted_wrt ?R (x # ys)" by simp
    from Cons.IH[OF this] False nlt show ?thesis by simp
  qed
qed

lemma Max_insert_below:
  fixes a :: nat
  assumes "finite A" and "b \<in> A" and "a \<le> b"
  shows "Max (insert a A) = Max A"
proof -
  have "A \<noteq> {}" using assms(2) by auto
  with assms(1) have "Max (insert a A) = max a (Max A)" by (rule Max_insert)
  moreover have "b \<le> Max A" using assms(1,2) by (rule Max_ge)
  ultimately show ?thesis using assms(3) by simp
qed

lemma pick_find:
  "find (\<lambda>y. k y = Max (k ` set (x # xs))) (x # xs) =
   Some (foldl (\<lambda>acc cur. if k acc < (k cur :: nat) then cur else acc) x xs)"
proof (induction xs arbitrary: x)
  case Nil
  show ?case by simp
next
  case (Cons y ys)
  define M where "M = Max (k ` set (x # y # ys))"
  show ?case
  proof (cases "k x < k y")
    case True
    define A where "A = k ` set (y # ys)"
    have fin: "finite A" and yA: "k y \<in> A" by (simp_all add: A_def)
    have "k ` set (x # y # ys) = insert (k x) A" by (simp add: A_def)
    then have M: "M = Max A"
      unfolding M_def using Max_insert_below[OF fin yA, of "k x"] True by simp
    have "k y \<le> Max A" using fin yA by (rule Max_ge)
    with True M have "k x \<noteq> M" by simp
    then have "find (\<lambda>v. k v = M) (x # y # ys) = find (\<lambda>v. k v = M) (y # ys)" by simp
    also have "\<dots> = Some (foldl (\<lambda>acc cur. if k acc < k cur then cur else acc) y ys)"
      unfolding M A_def by (rule Cons.IH)
    finally show ?thesis using True by (simp add: M_def)
  next
    case False
    define A where "A = k ` set (x # ys)"
    have fin: "finite A" and xA: "k x \<in> A" by (simp_all add: A_def)
    have "k ` set (x # y # ys) = insert (k y) A" by (auto simp: A_def)
    then have M: "M = Max A"
      unfolding M_def using Max_insert_below[OF fin xA, of "k y"] False by simp
    have xM: "k x \<le> M" unfolding M using fin xA by (rule Max_ge)
    have "find (\<lambda>v. k v = M) (x # y # ys) = find (\<lambda>v. k v = M) (x # ys)"
    proof (cases "k x = M")
      case True
      then show ?thesis by simp
    next
      case neq: False
      with xM False have "k y \<noteq> M" by simp
      with neq show ?thesis by simp
    qed
    also have "\<dots> = Some (foldl (\<lambda>acc cur. if k acc < k cur then cur else acc) x ys)"
      unfolding M A_def by (rule Cons.IH)
    finally show ?thesis using False by (simp add: M_def)
  qed
qed

lemma leftmost_longest_fold:
  assumes "cs \<noteq> []"
  shows "leftmost_longest cs =
     Some (foldl (\<lambda>acc cur. if fst (snd acc) < fst (snd cur) then cur else acc) (hd cs) (tl cs))"
proof -
  from assms obtain x xs where cs: "cs = x # xs" by (cases cs) auto
  have "find (\<lambda>c. fst (snd c) = Max ((\<lambda>c. fst (snd c)) ` set (x # xs))) (x # xs) =
      Some (foldl (\<lambda>acc cur. if fst (snd acc) < fst (snd cur) then cur else acc) x xs)"
    by (rule pick_find)
  then show ?thesis
    by (simp add: leftmost_longest_def cs case_prod_unfold)
qed

lemma leftmost_longest_Nil: "leftmost_longest [] = None"
  by (simp add: leftmost_longest_def)

section \<open>Compression of a list of rendered groups\<close>

lemma join_prefix:
  "ys \<noteq> [] \<Longrightarrow> js_join '':'' (p @ ys) = colon_terminated p @ js_join '':'' ys"
  by (induction p) (simp_all add: js_join_Cons colon_led_def colon_terminated_def)

lemma colon_terminated_join:
  "p \<noteq> [] \<Longrightarrow> colon_terminated p = js_join '':'' p @ '':''"
proof (induction p)
  case Nil
  then show ?case by simp
next
  case (Cons g p)
  then show ?case
    by (cases "p = []") (simp_all add: js_join_Cons colon_led_def colon_terminated_def)
qed

lemma colon_terminated_empty: "(colon_terminated p = []) = (p = [])"
  by (cases p) (simp_all add: colon_terminated_def)

lemma find_Some_mem: "find P xs = Some x \<Longrightarrow> x \<in> set xs"
  by (induction xs) (auto split: if_splits)

lemma replace_run:
  fixes p q :: "string list" and m :: nat
  defines "out \<equiv> js_join '':'' (p @ (''0'' # replicate m ''0'') @ q)"
  defines "L \<equiv> length (colon_terminated p)"
  shows "(if L = 0 then ''::'' @ drop (L + run_length (Suc m) q) out
          else take L out @ '':'' @ drop (L + run_length (Suc m) q) out) =
         js_join '':'' p @ ''::'' @ js_join '':'' q"
proof -
  let ?zs = "''0'' # replicate m ''0''"
  have out: "out = colon_terminated p @ js_join '':'' ?zs @ colon_led q"
    unfolding out_def
    by (subst join_prefix, simp) (subst js_join_append, simp_all)
  have len: "length (js_join '':'' ?zs) = 2 * m + 1" by (rule length_join_zeros)
  have tk: "take L out = colon_terminated p"
    unfolding out L_def by simp
  have "drop (L + run_length (Suc m) q) out = drop (run_length (Suc m) q) (js_join '':'' ?zs @ colon_led q)"
    unfolding out L_def by simp
  also have "\<dots> = js_join '':'' q"
    using len by (cases "q = []") (simp_all add: run_length_def colon_led_def)
  finally have dr: "drop (L + run_length (Suc m) q) out = js_join '':'' q" .
  show ?thesis
  proof (cases "p = []")
    case True
    then have "L = 0" by (simp add: L_def colon_terminated_def)
    with True dr show ?thesis by simp
  next
    case False
    then have "L \<noteq> 0" by (simp add: L_def colon_terminated_empty)
    with False tk dr show ?thesis by (simp add: colon_terminated_join)
  qed
qed

lemma run_lengths_ordered:
  "sorted_wrt (\<lambda>a c. (sh_length (run_record a) < sh_length (run_record c)) =
                      (fst (snd a) < fst (snd c)))
     (filter (\<lambda>(p, n, q). 2 \<le> n) (zero_runs z pre gs))"
proof -
  let ?Q = "\<lambda>a c. (sh_length (run_record a) < sh_length (run_record c)) =
                      (fst (snd a) < fst (snd c))"
  let ?C = "filter (\<lambda>(p, n, q). 2 \<le> n) (zero_runs z pre gs)"
  have "sorted_wrt (\<lambda>a c. snd (snd a) \<noteq> []) ?C"
    by (intro sorted_wrt_filter zero_runs_sorted)
  moreover have "?Q a c" if "c \<in> set ?C" and "snd (snd a) \<noteq> []" for a c
  proof -
    obtain p n q where a: "a = (p, n, q)" by (cases a)
    obtain p' n' q' where c: "c = (p', n', q')" by (cases c)
    from that(1) c have "2 \<le> n'" by simp
    with that(2) a c show ?thesis
      by (auto simp: run_record_def run_length_def)
  qed
  ultimately show ?thesis
    by (rule sorted_wrt_mono_rel[rotated]) blast
qed

lemma all_zero_replicate:
  "list_all (\<lambda>g. g = a) run \<Longrightarrow> run = replicate (length run) a"
  by (induction run) simp_all

lemma compress_groups:
  assumes "list_all good_group gs"
  shows "rfc_replace (js_join '':'' gs) (rfc_shortens (js_join '':'' gs)) =
     (case leftmost_longest (filter (\<lambda>(p, n, q). 2 \<le> n) (zero_runs (\<lambda>g. g = ''0'') [] gs)) of
        None \<Rightarrow> js_join '':'' gs
      | Some (p, n, q) \<Rightarrow> js_join '':'' p @ ''::'' @ js_join '':'' q)"
proof -
  let ?C = "filter (\<lambda>(p, n, q). 2 \<le> n) (zero_runs (\<lambda>g. g = ''0'') [] gs)"
  have sh: "rfc_shortens (js_join '':'' gs) = map run_record ?C"
    by (rule rfc_shortens_runs[OF assms])
  show ?thesis
  proof (cases ?C)
    case Nil
    then show ?thesis
      by (simp add: sh rfc_replace_def leftmost_longest_Nil)
  next
    case (Cons x xs)
    define best where
      "best = foldl (\<lambda>acc cur. if fst (snd acc) < fst (snd cur) then cur else acc) x xs"
    have ll: "leftmost_longest ?C = Some best"
      using leftmost_longest_fold[of ?C] Cons by (simp add: best_def)
    have "sorted_wrt (\<lambda>a c. (sh_length (run_record a) < sh_length (run_record c)) =
                      (fst (snd a) < fst (snd c))) (x # xs)"
      using run_lengths_ordered[of "\<lambda>g. g = ''0''" "[]" gs] Cons by simp
    then have bs: "bestShorten (map run_record ?C) = run_record best"
      unfolding Cons best_def bestShorten_def
      using pick_map[of sh_length run_record "\<lambda>c. fst (snd c)" x xs] by simp
    obtain p n q where best: "best = (p, n, q)" by (cases best)
    from ll have "best \<in> set ?C"
      unfolding leftmost_longest_def by (rule find_Some_mem)
    with best have mem: "(p, n, q) \<in> set (zero_runs (\<lambda>g. g = ''0'') [] gs)" by simp
    from zero_runs_decomp[OF mem] obtain run where
      gs: "gs = p @ run @ q" and n: "length run = n" "1 \<le> n" and z: "list_all (\<lambda>g. g = ''0'') run"
      by auto
    from n obtain m where m: "n = Suc m" by (cases n) auto
    from all_zero_replicate[OF z] n m have run: "run = ''0'' # replicate m ''0''" by simp
    have ne: "length (map run_record ?C) \<noteq> 0" using Cons by simp
    have rb: "sh_begin (run_record best) = length (colon_terminated p)"
      and re: "sh_end (run_record best) = length (colon_terminated p) + run_length (Suc m) q"
      by (simp_all add: best m run_record_def)
    have "rfc_replace (js_join '':'' gs) (map run_record ?C) =
        (if length (colon_terminated p) = 0
         then ''::'' @ drop (length (colon_terminated p) + run_length (Suc m) q) (js_join '':'' gs)
         else take (length (colon_terminated p)) (js_join '':'' gs) @ '':'' @
              drop (length (colon_terminated p) + run_length (Suc m) q) (js_join '':'' gs))"
      unfolding rfc_replace_def Let_def bs rb re by (simp only: ne if_False)
    also have "\<dots> = js_join '':'' p @ ''::'' @ js_join '':'' q"
      unfolding gs run by (rule replace_run)
    finally have "rfc_replace (js_join '':'' gs) (map run_record ?C) =
        js_join '':'' p @ ''::'' @ js_join '':'' q" .
    then show ?thesis
      by (simp add: sh ll best)
  qed
qed

section \<open>The canonical form of an IPv6 address\<close>

lemma hexOctetToString_byte:
  assumes "n \<le> 255"
  shows "hexOctetToString n = [digit_char (n div 16), digit_char (n mod 16)]"
proof (cases "n < 16")
  case True
  then show ?thesis
    by (simp add: hexOctetToString_def padStart_def toString16.simps[of n] digit_char_def)
next
  case False
  with assms have "n div 16 < 16" by simp
  with False show ?thesis
    by (simp add: hexOctetToString_def padStart_def toString16.simps[of n]
        toString16.simps[of "n div 16"])
qed

lemma below_16_cases:
  assumes "x < (16::nat)"
  obtains "x = 0" | "x = 1" | "x = 2" | "x = 3" | "x = 4" | "x = 5" | "x = 6" | "x = 7"
    | "x = 8" | "x = 9" | "x = 10" | "x = 11" | "x = 12" | "x = 13" | "x = 14" | "x = 15"
  using assms by atomize_elim arith

lemma hex_digit_char:
  assumes "x < 16"
  shows "digit_char x \<noteq> CHR '':''" and "(digit_char x = CHR ''0'') = (x = 0)"
  using assms by (cases x rule: below_16_cases; simp add: digit_char_def)+

lemma replace_zeros_four:
  assumes "CHR '':'' \<notin> {a, b, c, d}"
  shows "good_group (replace_zeros 3 [a, b, c, d])"
    and "(replace_zeros 3 [a, b, c, d] = ''0'') =
         (a = CHR ''0'' \<and> b = CHR ''0'' \<and> c = CHR ''0'' \<and> d = CHR ''0'')"
  using assms by (auto simp: good_group_def numeral_3_eq_3)

lemma group_string_pair:
  assumes "hi \<le> 255" and "lo \<le> 255"
  shows "good_group (group_string [hi, lo])"
    and "(group_string [hi, lo] = ''0'') = is_zero_group [hi, lo]"
proof -
  let ?a = "digit_char (hi div 16)" and ?b = "digit_char (hi mod 16)"
  let ?c = "digit_char (lo div 16)" and ?d = "digit_char (lo mod 16)"
  from assms have lt: "hi div 16 < 16" "hi mod 16 < 16" "lo div 16 < 16" "lo mod 16 < 16"
    by simp_all
  have gs: "group_string [hi, lo] = replace_zeros 3 [?a, ?b, ?c, ?d]"
    by (simp add: group_string_def hexOctetToString_byte assms)
  have nc: "CHR '':'' \<notin> {?a, ?b, ?c, ?d}"
    using lt(1,2,3,4)[THEN hex_digit_char(1), THEN not_sym] by simp
  show "good_group (group_string [hi, lo])"
    unfolding gs by (rule replace_zeros_four(1)[OF nc])
  have "hi = 0 \<longleftrightarrow> hi div 16 = 0 \<and> hi mod 16 = 0" by auto
  moreover have "lo = 0 \<longleftrightarrow> lo div 16 = 0 \<and> lo mod 16 = 0" by auto
  ultimately show "(group_string [hi, lo] = ''0'') = is_zero_group [hi, lo]"
    unfolding gs replace_zeros_four(2)[OF nc]
    using lt by (simp add: hex_digit_char(2) is_zero_group_def)
qed

lemma getOctetsPair_Address6:
  assumes "length (bytes c) = 16"
  shows "getOctetsPair (Address6 c) = octet_pairs (bytes c)"
proof -
  from assms obtain b0 b1 b2 b3 b4 b5 b6 b7 b8 b9 b10 b11 b12 b13 b14 b15 where
    "bytes c = [b0, b1, b2, b3, b4, b5, b6, b7, b8, b9, b10, b11, b12, b13, b14, b15]"
    by (auto simp: length_Suc_conv eval_nat_numeral)
  then show ?thesis
    by (simp add: getOctetsPair_def getOctets_def)
qed

lemma octet_pairs_ok:
  assumes "even (length bs)" and "list_all (\<lambda>b. b \<le> 255) bs"
  shows "list_all (\<lambda>g. \<exists>hi lo. g = [hi, lo] \<and> hi \<le> 255 \<and> lo \<le> 255) (octet_pairs bs)"
  using assms by (induction bs rule: octet_pairs.induct) simp_all


lemma zero_runs_map:
  assumes "\<forall>g\<in>set gs. z' (f g) = z g"
  shows "zero_runs z' (map f pre) (map f gs) =
         map (\<lambda>(p, n, q). (map f p, n, map f q)) (zero_runs z pre gs)"
  using assms
proof (induction z pre gs rule: zero_runs.induct)
  case (1 z pre)
  show ?case by simp
next
  case (2 z pre g gs)
  from 2(3) have g: "z' (f g) = z g" and gs: "\<forall>x\<in>set gs. z' (f x) = z x" by simp_all
  show ?case
  proof (cases "z g")
    case False
    with 2(2)[OF False gs] g show ?thesis by simp
  next
    case True
    have tw: "takeWhile z' (map f gs) = map f (takeWhile z gs)"
      unfolding takeWhile_map using gs by (intro arg_cong[of _ _ "map f"] takeWhile_cong) simp_all
    have dw: "dropWhile z' (map f gs) = map f (dropWhile z gs)"
      unfolding dropWhile_map using gs by (intro arg_cong[of _ _ "map f"] dropWhile_cong) simp_all
    have "\<forall>x\<in>set (dropWhile z gs). z' (f x) = z x"
      using gs by (auto dest: set_dropWhileD)
    from 2(1)[OF True this] True g show ?thesis
      by (simp add: tw dw)
  qed
qed

lemma find_map_option: "find P (map f xs) = map_option f (find (P \<circ> f) xs)"
  by (induction xs) simp_all

lemma leftmost_longest_map:
  "leftmost_longest (map (\<lambda>(p, n, q). (f p, n, g q)) cs) =
   map_option (\<lambda>(p, n, q). (f p, n, g q)) (leftmost_longest cs)"
proof -
  have count: "map (\<lambda>(p, n, q). n) (map (\<lambda>(p, n, q). (f p, n, g q)) cs) = map (\<lambda>(p, n, q). n) cs"
    by (simp add: case_prod_unfold)
  have pred: "(\<lambda>(p, n, q). n = (M::nat)) \<circ> (\<lambda>(p, n, q). (f p, n, g q)) = (\<lambda>(p, n, q). n = M)" for M
    by (auto simp: fun_eq_iff)
  show ?thesis
    unfolding leftmost_longest_def count find_map_option pred ..
qed

lemma rendered_groups:
  assumes "wellformed (Address6 c)"
  shows "getOctetsPair (Address6 c) = octet_pairs (bytes c)"
    and "list_all good_group (map group_string (octet_pairs (bytes c)))"
    and "\<forall>g\<in>set (octet_pairs (bytes c)). (group_string g = ''0'') = is_zero_group g"
proof -
  from assms have len: "length (bytes c) = 16" and ok: "list_all (\<lambda>b. b \<le> 255) (bytes c)"
    by (simp_all add: wellformed_def IPV6_BYTES_def)
  show "getOctetsPair (Address6 c) = octet_pairs (bytes c)"
    by (rule getOctetsPair_Address6[OF len])
  have pairs: "list_all (\<lambda>g. \<exists>hi lo. g = [hi, lo] \<and> hi \<le> 255 \<and> lo \<le> 255) (octet_pairs (bytes c))"
    using len ok by (intro octet_pairs_ok) simp_all
  then show "list_all good_group (map group_string (octet_pairs (bytes c)))"
    by (auto simp: list_all_iff group_string_pair(1))
  from pairs show "\<forall>g\<in>set (octet_pairs (bytes c)). (group_string g = ''0'') = is_zero_group g"
    by (auto simp: list_all_iff group_string_pair(2))
qed

text \<open>Claim C3: \<^verbatim>\<open>getRfc5952()\<close> replaces the longest run of consecutive all-zero groups by
  \<^verbatim>\<open>::\<close>, and of several qualifying runs of the greatest length the leftmost one, a run
  qualifying when it has at least two groups: for every well-formed \<^verbatim>\<open>Address6\<close> the
  result of the code is the result of \<open>spec_rfc5952\<close>. The witness is the address parsed
  from \<^verbatim>\<open>"1080:0:0:0:8:800:200c:417a"\<close>, whose canonical form is
  \<^verbatim>\<open>"1080::8:800:200c:417a"\<close>.\<close>

theorem getRfc5952_replaces_leftmost_longest_run:
  assumes "wellformed (Address6 c)"
  shows "getRfc5952 (Address6 c) = spec_rfc5952 (Address6 c)"
proof -
  let ?pairs = "octet_pairs (bytes c)"
  let ?gs = "map group_string ?pairs"
  let ?F = "\<lambda>(p, n, q). (map group_string p, n :: nat, map group_string q)"
  note r = rendered_groups[OF assms]
  have out: "rfc_output (Address6 c) = js_join '':'' ?gs"
    by (simp add: rfc_output_def r(1))
  have runs: "zero_runs (\<lambda>g. g = ''0'') [] ?gs = map ?F (zero_runs is_zero_group [] ?pairs)"
    using zero_runs_map[of ?pairs "\<lambda>g. g = ''0''" group_string is_zero_group "[]"] r(3) by simp
  have "filter (\<lambda>(p, n, q). 2 \<le> n) (map ?F (zero_runs is_zero_group [] ?pairs)) =
      map ?F (rfc_candidates ?pairs)"
    by (simp add: rfc_candidates_def filter_map comp_def case_prod_unfold)
  then have cands: "leftmost_longest (filter (\<lambda>(p, n, q). 2 \<le> n) (zero_runs (\<lambda>g. g = ''0'') [] ?gs)) =
      map_option ?F (leftmost_longest (rfc_candidates ?pairs))"
    unfolding runs by (simp only: leftmost_longest_map)
  have "getRfc5952 (Address6 c) = rfc_replace (js_join '':'' ?gs) (rfc_shortens (js_join '':'' ?gs))"
    by (simp add: getRfc5952_def calculateRfc5952_def Let_def out)
  also have "\<dots> = (case map_option ?F (leftmost_longest (rfc_candidates ?pairs)) of
        None \<Rightarrow> js_join '':'' ?gs
      | Some (p, n, q) \<Rightarrow> js_join '':'' p @ ''::'' @ js_join '':'' q)"
    unfolding compress_groups[OF r(2)] cands ..
  also have "\<dots> = spec_rfc5952 (Address6 c)"
    by (simp add: spec_rfc5952_def getOctets_def Let_def split: option.splits)
  finally show ?thesis .
qed

theorem getRfc5952_replaces_leftmost_longest_run_witness:
  "new_Address6 (String ''1080:0:0:0:8:800:200c:417a'') =
     Inr (Address6 (ByteContainer [16, 128, 0, 0, 0, 0, 0, 0, 0, 8, 8, 0, 32, 12, 65, 122]))
   \<and> wellformed (Address6 (ByteContainer [16, 128, 0, 0, 0, 0, 0, 0, 0, 8, 8, 0, 32, 12, 65, 122]))
   \<and> getRfc5952 (Address6 (ByteContainer [16, 128, 0, 0, 0, 0, 0, 0, 0, 8, 8, 0, 32, 12, 65, 122])) =
       ''1080::8:800:200c:417a''
   \<and> spec_rfc5952 (Address6 (ByteContainer [16, 128, 0, 0, 0, 0, 0, 0, 0, 8, 8, 0, 32, 12, 65, 122])) =
       ''1080::8:800:200c:417a''"
proof -
  let ?a = "Address6 (ByteContainer [16, 128, 0, 0, 0, 0, 0, 0, 0, 8, 8, 0, 32, 12, 65, 122])"
  have parsed: "new_Address6 (String ''1080:0:0:0:8:800:200c:417a'') = Inr ?a"
    by code_simp
  have wf: "wellformed ?a"
    by (simp add: wellformed_def IPV6_BYTES_def)
  have canonical: "getRfc5952 ?a = ''1080::8:800:200c:417a''"
    by code_simp
  from getRfc5952_replaces_leftmost_longest_run[OF wf] parsed wf canonical show ?thesis
    by simp
qed

text \<open>Two runs of the same greatest length: the left one is replaced.\<close>

lemma leftmost_of_equal_runs:
  "getRfc5952 (Address6 (ByteContainer [0, 1, 0, 0, 0, 0, 0, 2, 0, 0, 0, 0, 0, 3, 0, 4])) =
     ''1::2:0:0:3:4''"
  "spec_rfc5952 (Address6 (ByteContainer [0, 1, 0, 0, 0, 0, 0, 2, 0, 0, 0, 0, 0, 3, 0, 4])) =
     ''1::2:0:0:3:4''"
  by code_simp+

lemma adjacent_in_zip: "gs = p @ a # b # r \<Longrightarrow> (a, b) \<in> set (zip gs (tl gs))"
proof (induction p arbitrary: gs)
  case Nil
  then show ?case by simp
next
  case (Cons x p)
  then have "(a, b) \<in> set (zip (p @ a # b # r) (tl (p @ a # b # r)))" by simp
  moreover have "zip gs (tl gs) = (x, hd (p @ a # b # r)) # zip (p @ a # b # r) (tl (p @ a # b # r))"
    using Cons.prems by (cases "p @ a # b # r") simp_all
  ultimately show ?case by simp
qed

text \<open>Claim C8: \<^verbatim>\<open>getRfc5952()\<close> never compresses a single zero group: a run is replaced by
  \<^verbatim>\<open>::\<close> only when it has at least two groups. For every well-formed \<^verbatim>\<open>Address6\<close> in
  whose stripped groups no two neighbours are both \<^verbatim>\<open>0\<close>, the canonical form is the
  stripped groups joined by colons, unshortened.\<close>

theorem isolated_zero_groups_not_compressed:
  assumes "wellformed (Address6 c)"
    and "list_all (\<lambda>(g, h). \<not> (g = ''0'' \<and> h = ''0''))
           (zip (map group_string (getOctetsPair (Address6 c)))
                (tl (map group_string (getOctetsPair (Address6 c)))))"
  shows "getRfc5952 (Address6 c) = js_join '':'' (map group_string (getOctetsPair (Address6 c)))"
proof -
  let ?gs = "map group_string (octet_pairs (bytes c))"
  note r = rendered_groups[OF assms(1)]
  have "filter (\<lambda>(p, n, q). 2 \<le> n) (zero_runs (\<lambda>g. g = ''0'') [] ?gs) = []"
  proof (rule ccontr)
    assume "filter (\<lambda>(p, n, q). 2 \<le> n) (zero_runs (\<lambda>g. g = ''0'') [] ?gs) \<noteq> []"
    then obtain p n q where mem: "(p, n, q) \<in> set (zero_runs (\<lambda>g. g = ''0'') [] ?gs)"
      and n: "2 \<le> n"
      by (auto simp: filter_empty_conv)
    from zero_runs_decomp[OF mem] obtain run where
      gs: "?gs = p @ run @ q" and len: "length run = n" and z: "list_all (\<lambda>g. g = ''0'') run"
      by auto
    from len n obtain a b run' where run: "run = a # b # run'"
      by (cases run; cases "tl run") auto
    with z have ab: "a = ''0''" "b = ''0''" by simp_all
    have "(a, b) \<in> set (zip ?gs (tl ?gs))"
      by (rule adjacent_in_zip[of _ p _ _ "run' @ q"]) (simp add: gs run)
    with assms(2) ab show False
      by (auto simp: r(1) list_all_iff)
  qed
  then have "rfc_replace (js_join '':'' ?gs) (rfc_shortens (js_join '':'' ?gs)) = js_join '':'' ?gs"
    unfolding compress_groups[OF r(2)] by (simp add: leftmost_longest_Nil)
  then show ?thesis
    by (simp add: getRfc5952_def calculateRfc5952_def rfc_output_def Let_def r(1))
qed

theorem isolated_zero_groups_not_compressed_witness:
  "wellformed (Address6 (ByteContainer [0, 1, 0, 0, 0, 2, 0, 0, 0, 3, 0, 0, 0, 4, 0, 0]))
   \<and> list_all (\<lambda>(g, h). \<not> (g = ''0'' \<and> h = ''0''))
        (zip (map group_string
                (getOctetsPair (Address6 (ByteContainer [0, 1, 0, 0, 0, 2, 0, 0, 0, 3, 0, 0, 0, 4, 0, 0]))))
             (tl (map group_string
                (getOctetsPair (Address6 (ByteContainer [0, 1, 0, 0, 0, 2, 0, 0, 0, 3, 0, 0, 0, 4, 0, 0]))))))
   \<and> getRfc5952 (Address6 (ByteContainer [0, 1, 0, 0, 0, 2, 0, 0, 0, 3, 0, 0, 0, 4, 0, 0])) =
       ''1:0:2:0:3:0:4:0''"
proof -
  let ?a = "Address6 (ByteContainer [0, 1, 0, 0, 0, 2, 0, 0, 0, 3, 0, 0, 0, 4, 0, 0])"
  have wf: "wellformed ?a"
    by (simp add: wellformed_def IPV6_BYTES_def)
  have iso: "list_all (\<lambda>(g, h). \<not> (g = ''0'' \<and> h = ''0''))
      (zip (map group_string (getOctetsPair ?a)) (tl (map group_string (getOctetsPair ?a))))"
    by code_simp
  have joined: "js_join '':'' (map group_string (getOctetsPair ?a)) = ''1:0:2:0:3:0:4:0''"
    by code_simp
  from isolated_zero_groups_not_compressed[OF wf iso] wf iso joined show ?thesis
    by simp
qed

section \<open>What the constructors return\<close>

text \<open>An address built from a string or from an array of numbers is well-formed. The
  constructor of \<^verbatim>\<open>Address4\<close> raises nothing but \<open>AddressValueError\<close>; that of \<^verbatim>\<open>Address6\<close>
  raises \<open>AddressValueError\<close> or, from the splice, \<open>RangeError\<close>. The byte container's
  \<open>InvalidByte\<close> never escapes, since the bytes are checked before it is built.\<close>

lemma isValidByteArray_int:
  "isValidByteArray (map int octets) = list_all (\<lambda>b. b \<le> 255) octets"
  by (induction octets) (simp_all add: isValidByteArray_def isValidByte_def)

lemma new_ByteContainer_bytes:
  "new_ByteContainer (map int octets) =
     (if list_all (\<lambda>b. b \<le> 255) octets then Inr (ByteContainer octets) else Inl InvalidByte)"
  by (simp add: new_ByteContainer_def isValidByteArray_int comp_def)

lemma map_throw_length: "map_throw f xs = Inr ys \<Longrightarrow> length ys = length xs"
  using map_throw_Inr[of f xs ys] by (simp add: list_all2_lengthD)

lemma map_throw_Inl: "map_throw f xs = Inl e \<Longrightarrow> \<exists>x\<in>set xs. f x = Inl e"
  by (induction xs) (auto split: sum.splits)

lemma Address4_octets_bytes:
  assumes "map_throw Address4_octet parts = Inr octets"
  shows "list_all (\<lambda>b. b \<le> 255) octets"
proof -
  have "list_all2 (\<lambda>p n. Address4_octet p = Inr n) parts octets"
    by (rule map_throw_Inr[OF assms])
  then show ?thesis
    by (induction rule: list_all2_induct) (auto dest: Address4_octet_Inr(3))
qed

lemma Address4_octet_error: "Address4_octet p = Inl e \<Longrightarrow> e = AddressValueError"
  by (auto simp: Address4_octet_def Let_def split: if_splits)

lemma new_Address4_String:
  "new_Address4 (String s) =
     (let parts = js_split CHR ''.'' s in
      if length parts \<noteq> 4 then Inl AddressValueError
      else case map_throw Address4_octet parts of
             Inl e \<Rightarrow> Inl AddressValueError
           | Inr octets \<Rightarrow> Inr (Address4 (ByteContainer octets)))"
proof -
  have "e = AddressValueError" if "map_throw Address4_octet (js_split CHR ''.'' s) = Inl e" for e
    using map_throw_Inl[OF that] by (auto dest: Address4_octet_error)
  then show ?thesis
    by (auto simp: Let_def IPV4_BYTES_def new_ByteContainer_bytes Address4_octets_bytes
        split: sum.splits)
qed

lemma valid_array_nat:
  "isValidByteArray xs \<Longrightarrow> list_all (\<lambda>b. b \<le> 255) (map nat xs)"
  by (induction xs) (auto simp: isValidByteArray_def isValidByte_def nat_le_iff)

lemma new_ByteContainer_padded:
  assumes "isValidByteArray xs"
  shows "new_ByteContainer (replicate k 0 @ xs) = Inr (ByteContainer (replicate k 0 @ map nat xs))"
proof -
  have "isValidByteArray (replicate k 0 @ xs)"
    using assms by (auto simp: isValidByteArray_def isValidByte_def list_all_iff)
  then show ?thesis by (simp add: new_ByteContainer_def)
qed

lemma new_Address4_wellformed:
  assumes "new_Address4 inp = Inr a" and "\<forall>c. inp \<noteq> Container c"
  shows "wellformed a"
proof (cases inp)
  case (String s)
  from assms(1)[unfolded String new_Address4_String] obtain octets where
    oct: "map_throw Address4_octet (js_split CHR ''.'' s) = Inr octets"
    and len: "length (js_split CHR ''.'' s) = 4" and a: "a = Address4 (ByteContainer octets)"
    by (auto simp: Let_def split: if_splits sum.splits)
  from Address4_octets_bytes[OF oct] map_throw_length[OF oct] len a show ?thesis
    by (simp add: wellformed_def IPV4_BYTES_def)
next
  case (Array xs)
  with assms(1) have len: "length xs \<le> 4" and ok: "isValidByteArray xs"
    and a: "a = Address4 (ByteContainer (replicate (4 - length xs) 0 @ map nat xs))"
    by (auto simp: IPV4_BYTES_def new_ByteContainer_padded split: if_splits)
  from valid_array_nat[OF ok] len a show ?thesis
    by (auto simp: wellformed_def IPV4_BYTES_def list_all_iff)
next
  case (Container c)
  with assms(2) show ?thesis by simp
qed

lemma new_Address4_error:
  assumes "new_Address4 inp = Inl e"
  shows "e = AddressValueError"
proof (cases inp)
  case (String s)
  from assms[unfolded String new_Address4_String] show ?thesis
    by (auto simp: Let_def split: if_splits sum.splits)
next
  case (Array xs)
  with assms show ?thesis
    by (auto simp: new_ByteContainer_padded split: if_splits)
next
  case (Container c)
  with assms show ?thesis by simp
qed


lemma hex_digit_cases:
  assumes "c \<in> set ''0123456789abcdefABCDEF''"
  shows "c = CHR ''0'' \<or> c = CHR ''1'' \<or> c = CHR ''2'' \<or> c = CHR ''3'' \<or> c = CHR ''4''
       \<or> c = CHR ''5'' \<or> c = CHR ''6'' \<or> c = CHR ''7'' \<or> c = CHR ''8'' \<or> c = CHR ''9''
       \<or> c = CHR ''a'' \<or> c = CHR ''b'' \<or> c = CHR ''c'' \<or> c = CHR ''d'' \<or> c = CHR ''e''
       \<or> c = CHR ''f'' \<or> c = CHR ''A'' \<or> c = CHR ''B'' \<or> c = CHR ''C'' \<or> c = CHR ''D''
       \<or> c = CHR ''E'' \<or> c = CHR ''F''"
  using assms by simp

lemma digit_value_hex:
  "digit_value CHR ''a'' = 10" "digit_value CHR ''b'' = 11" "digit_value CHR ''c'' = 12"
  "digit_value CHR ''d'' = 13" "digit_value CHR ''e'' = 14" "digit_value CHR ''f'' = 15"
  "digit_value CHR ''A'' = 10" "digit_value CHR ''B'' = 11" "digit_value CHR ''C'' = 12"
  "digit_value CHR ''D'' = 13" "digit_value CHR ''E'' = 14" "digit_value CHR ''F'' = 15"
  by (simp_all add: digit_value_def)

lemma hex_digit_value:
  assumes "c \<in> set ''0123456789abcdefABCDEF''"
  shows "digit_value c \<le> 15"
  using hex_digit_cases[OF assms]
  by (elim disjE) (simp_all add: digit_value_decimal digit_value_hex)

lemma parseInt_hex_pair:
  assumes "isHexadecimalString s" and "length s = 2"
  shows "parseInt s 16 \<le> 255"
proof -
  from assms(2) obtain a b where s: "s = [a, b]"
    by (auto simp: length_Suc_conv eval_nat_numeral)
  with assms(1) have "digit_value a \<le> 15" and "digit_value b \<le> 15"
    by (simp_all add: isHexadecimalString_def hex_digit_value del: set_simps)
  then show ?thesis by (simp add: s parseInt_def)
qed

lemma wellformed_Address4_octets:
  "wellformed (Address4 c) \<Longrightarrow> list_all (\<lambda>b. b \<le> 255) (getOctets (Address4 c))"
  by (simp add: wellformed_def getOctets_def)

lemma Address6_loop_bytes:
  assumes "Address6_loop n items si octets = Inr (si', octets')"
    and "list_all (\<lambda>b. b \<le> 255) octets"
  shows "list_all (\<lambda>b. b \<le> 255) octets'"
  using assms
proof (induction items arbitrary: si octets)
  case Nil
  then show ?case by simp
next
  case (Cons x items)
  obtain index item where x: "x = (index, item)" by (cases x)
  show ?case
  proof (cases "item = []")
    case True
    with Cons.prems(1) x obtain si2 where "Address6_loop n items si2 octets = Inr (si', octets')"
      by (auto split: option.splits if_splits)
    then show ?thesis by (rule Cons.IH[OF _ Cons.prems(2)])
  next
    case False
    show ?thesis
    proof (cases "CHR ''.'' \<in> set item")
      case True
      with False Cons.prems(1) x obtain a where
        a: "new_Address4 (String item) = Inr a"
        and rest: "Address6_loop n items si (octets @ getOctets a) = Inr (si', octets')"
        by (auto split: if_splits sum.splits simp del: new_Address4.simps)
      have "wellformed a" using new_Address4_wellformed[OF a] by simp
      then have "list_all (\<lambda>b. b \<le> 255) (getOctets a)"
        by (cases a) (simp_all add: wellformed_def getOctets_def)
      with Cons.prems(2) have "list_all (\<lambda>b. b \<le> 255) (octets @ getOctets a)" by simp
      with rest show ?thesis by (rule Cons.IH)
    next
      case nodot: False
      define padded where "padded = replicate (4 - length item) CHR ''0'' @ item"
      define firstOctet where "firstOctet = toLowerCase (take 2 padded)"
      define secondOctet where "secondOctet = toLowerCase (drop 2 padded)"
      from False nodot Cons.prems(1) x have len: "length item \<le> 4"
        and h1: "isHexadecimalString firstOctet" and h2: "isHexadecimalString secondOctet"
        and rest: "Address6_loop n items si
            (octets @ [parseInt firstOctet 16, parseInt secondOctet 16]) = Inr (si', octets')"
        by (auto simp: IPV6_SEGMENT_LENGTH_def Let_def padded_def firstOctet_def secondOctet_def
            split: if_splits)
      from len have "length padded = 4" by (simp add: padded_def)
      then have "length firstOctet = 2" "length secondOctet = 2"
        by (simp_all add: firstOctet_def secondOctet_def toLowerCase_def)
      with h1 h2 have "parseInt firstOctet 16 \<le> 255" "parseInt secondOctet 16 \<le> 255"
        by (simp_all add: parseInt_hex_pair)
      with Cons.prems(2)
      have "list_all (\<lambda>b. b \<le> 255) (octets @ [parseInt firstOctet 16, parseInt secondOctet 16])"
        by simp
      with rest show ?thesis by (rule Cons.IH)
    qed
  qed
qed

lemma Address6_loop_error:
  "Address6_loop n items si octets = Inl e \<Longrightarrow> e = AddressValueError"
proof (induction items arbitrary: si octets)
  case Nil
  then show ?case by simp
next
  case (Cons x items)
  obtain index item where x: "x = (index, item)" by (cases x)
  note step = Cons.prems[unfolded x Address6_loop.simps]
  show ?case
  proof (cases "item = []")
    case True
    show ?thesis
    proof (cases si)
      case None
      with step True have "Address6_loop n items (Some index) octets = Inl e" by simp
      then show ?thesis by (rule Cons.IH)
    next
      case (Some k)
      with step True have "e = AddressValueError \<or> Address6_loop n items si octets = Inl e"
        by (simp split: if_splits)
      then show ?thesis using Cons.IH by blast
    qed
  next
    case False
    show ?thesis
    proof (cases "CHR ''.'' \<in> set item")
      case True
      show ?thesis
      proof (cases "new_Address4 (String item)")
        case (Inl e')
        with step False True have "e = AddressValueError \<or> e = e'"
          by (simp split: if_splits)
        with new_Address4_error[OF Inl] show ?thesis by blast
      next
        case (Inr a)
        with step False True
        have "e = AddressValueError \<or> Address6_loop n items si (octets @ getOctets a) = Inl e"
          by (simp split: if_splits)
        then show ?thesis using Cons.IH by blast
      qed
    next
      case nodot: False
      with step False
      have "e = AddressValueError \<or> (\<exists>octets2. Address6_loop n items si octets2 = Inl e)"
        by (simp add: Let_def split: if_splits) blast+
      then show ?thesis using Cons.IH by blast
    qed
  qed
qed

lemma Address6_expand_bytes:
  assumes "Address6_expand si octets = Inr octets'" and "list_all (\<lambda>b. b \<le> 255) octets"
  shows "list_all (\<lambda>b. b \<le> 255) octets'"
proof (cases si)
  case None
  with assms show ?thesis by (simp add: Address6_expand_def)
next
  case (Some k)
  with assms(1) have "octets' = take (k * 2) octets @ replicate (IPV6_BYTES - length octets) 0
      @ drop (k * 2) octets"
    by (simp add: Address6_expand_def split: if_splits)
  moreover have "\<forall>b\<in>set (take (k * 2) octets). b \<le> 255" "\<forall>b\<in>set (drop (k * 2) octets). b \<le> 255"
    using assms(2) by (auto simp: list_all_iff dest: in_set_takeD in_set_dropD)
  ultimately show ?thesis
    by (auto simp: list_all_iff)
qed

lemma Address6_expand_error: "Address6_expand si octets = Inl e \<Longrightarrow> e = RangeError"
  by (auto simp: Address6_expand_def split: option.splits if_splits)

lemma new_Address6_wellformed:
  assumes "new_Address6 inp = Inr a" and "\<forall>c. inp \<noteq> Container c"
  shows "wellformed a"
proof (cases inp)
  case (String s)
  with assms(1) obtain si octets octets' c where
    loop: "Address6_loop (length (js_split CHR '':'' s)) (enumerate 0 (js_split CHR '':'' s)) None [] =
        Inr (si, octets)"
    and ex: "Address6_expand si octets = Inr octets'"
    and len: "length octets' = 16"
    and c: "new_ByteContainer (map int octets') = Inr c" and a: "a = Address6 c"
    by (auto simp: Let_def IPV6_BYTES_def split: sum.splits if_splits)
  have "list_all (\<lambda>b. b \<le> 255) octets"
    by (rule Address6_loop_bytes[OF loop]) simp
  then have ok: "list_all (\<lambda>b. b \<le> 255) octets'"
    by (rule Address6_expand_bytes[OF ex])
  with c have "bytes c = octets'"
    by (auto simp: new_ByteContainer_bytes)
  with ok len a show ?thesis
    by (simp add: wellformed_def IPV6_BYTES_def)
next
  case (Array xs)
  with assms(1) have len: "length xs \<le> 16" and ok: "isValidByteArray xs"
    and a: "a = Address6 (ByteContainer (replicate (16 - length xs) 0 @ map nat xs))"
    by (auto simp: IPV6_BYTES_def new_ByteContainer_padded split: if_splits)
  from valid_array_nat[OF ok] len a show ?thesis
    by (auto simp: wellformed_def IPV6_BYTES_def list_all_iff)
next
  case (Container c)
  with assms(2) show ?thesis by simp
qed

lemma new_Address6_error:
  assumes "new_Address6 inp = Inl e"
  shows "e = AddressValueError \<or> e = RangeError"
proof (cases inp)
  case (String s)
  let ?loop = "Address6_loop (length (js_split CHR '':'' s)) (enumerate 0 (js_split CHR '':'' s)) None []"
  show ?thesis
  proof (cases ?loop)
    case (Inl e')
    with assms String have "e = e'" by (simp add: Let_def)
    with Address6_loop_error[OF Inl] show ?thesis by simp
  next
    case (Inr r)
    obtain si octets where r: "r = (si, octets)" by (cases r)
    show ?thesis
    proof (cases "Address6_expand si octets")
      case (Inl e')
      with assms String Inr r have "e = e'" by (simp add: Let_def)
      with Address6_expand_error[OF Inl] show ?thesis by simp
    next
      case ex: (Inr octets')
      have "list_all (\<lambda>b. b \<le> 255) octets"
        by (rule Address6_loop_bytes[OF Inr[unfolded r]]) simp
      then have "list_all (\<lambda>b. b \<le> 255) octets'"
        by (rule Address6_expand_bytes[OF ex])
      with assms String Inr r ex show ?thesis
        by (simp add: Let_def new_ByteContainer_bytes split: if_splits)
    qed
  qed
next
  case (Array xs)
  with assms show ?thesis
    by (auto simp: new_ByteContainer_padded split: if_splits)
next
  case (Container c)
  with assms show ?thesis by simp
qed

text \<open>The string \<^verbatim>\<open>"::"\<close> alone splits into three empty parts; the third is neither at
  index 1 nor the last of a trailing pair whose first is the recorded one, so the
  constructor raises. With a group on either side the elision is accepted.\<close>

lemma double_colon_alone:
  "new_Address6 (String ''::'') = Inl AddressValueError"
  "new_Address6 (String ''::1'') =
     Inr (Address6 (ByteContainer [0, 0, 0, 0, 0, 0, 0, 0, 0, 0, 0, 0, 0, 0, 0, 1]))"
  "new_Address6 (String ''1::'') =
     Inr (Address6 (ByteContainer [0, 1, 0, 0, 0, 0, 0, 0, 0, 0, 0, 0, 0, 0, 0, 0]))"
  by code_simp+

section \<open>A lone colon at the start or at the end\<close>

lemma loop_empty:
  "Address6_loop n ((i, []) # rest) si octs =
     (case si of
        None \<Rightarrow> Address6_loop n rest (Some i) octs
      | Some k \<Rightarrow>
          if (k = 0 \<and> i = 1) \<or> (int k = int n - 2 \<and> int i = int n - 1)
          then Address6_loop n rest si octs
          else Inl AddressValueError)"
  by (simp split: option.splits)

lemma loop_nonempty:
  assumes "item \<noteq> []"
  shows "Address6_loop n ((i, item) # rest) si octs =
     (case group_octets (int i = int n - 1) item of
        Inl e \<Rightarrow> Inl e
      | Inr os \<Rightarrow> Address6_loop n rest si (octs @ os))"
  using assms
  by (simp add: group_octets_def Let_def split: sum.splits del: new_Address4.simps)

lemma loop_bound_indep:
  assumes "list_all (\<lambda>(i, x). int i < int n - 1 \<and> int i < int n' - 1) items"
  shows "Address6_loop n items si octs = Address6_loop n' items si octs"
  using assms
proof (induction items arbitrary: si octs)
  case Nil
  show ?case by simp
next
  case (Cons x items)
  obtain i item where x: "x = (i, item)" by (cases x)
  from Cons.prems x have i: "int i < int n - 1" "int i < int n' - 1"
    and rest: "list_all (\<lambda>(i, x). int i < int n - 1 \<and> int i < int n' - 1) items"
    by simp_all
  note ih = Cons.IH[OF rest]
  show ?case
  proof (cases "item = []")
    case True
    with i show ?thesis
      unfolding x True loop_empty by (simp add: ih split: option.splits)
  next
    case False
    from i have "(int i = int n - 1) = False" "(int i = int n' - 1) = False" by simp_all
    then show ?thesis
      unfolding x loop_nonempty[OF False] by (simp add: ih split: sum.splits)
  qed
qed

lemma loop_shift:
  assumes "2 \<le> k" and "k + length items \<le> n"
  shows "Address6_loop (Suc n) (enumerate (Suc k) items) (Some 0) octs =
         Address6_loop n (enumerate k items) (Some 0) octs"
  using assms
proof (induction items arbitrary: k octs)
  case Nil
  show ?case by simp
next
  case (Cons item items)
  from Cons.prems have k: "2 \<le> Suc k" "Suc k + length items \<le> n" and n: "3 \<le> n"
    by simp_all
  note ih = Cons.IH[OF k]
  show ?case
  proof (cases "item = []")
    case True
    with Cons.prems(1) n show ?thesis
      by (simp add: loop_empty del: Address6_loop.simps)
  next
    case False
    have "(int (Suc k) = int (Suc n) - 1) = (int k = int n - 1)" by auto
    then show ?thesis
      by (simp add: loop_nonempty[OF False] ih split: sum.splits del: Address6_loop.simps)
  qed
qed

lemma js_split_first_nonempty:
  assumes "s \<noteq> []" and "hd s \<noteq> sep"
  obtains p ps where "js_split sep s = p # ps" and "p \<noteq> []"
proof -
  from assms obtain c cs where s: "s = c # cs" and c: "c \<noteq> sep" by (cases s) auto
  obtain q qs where "js_split sep cs = q # qs"
    using js_split_not_Nil[of sep cs] by (cases "js_split sep cs") auto
  with s c have "js_split sep s = (c # q) # qs" by simp
  then show ?thesis by (rule that) simp
qed

lemma leading_loop:
  assumes "s \<noteq> []" and "hd s \<noteq> CHR '':''"
  shows "Address6_loop (length (js_split CHR '':'' (CHR '':'' # s)))
           (enumerate 0 (js_split CHR '':'' (CHR '':'' # s))) None [] =
         Address6_loop (length (js_split CHR '':'' (CHR '':'' # CHR '':'' # s)))
           (enumerate 0 (js_split CHR '':'' (CHR '':'' # CHR '':'' # s))) None []"
proof -
  from assms obtain p ps where parts: "js_split CHR '':'' s = p # ps" and p: "p \<noteq> []"
    by (rule js_split_first_nonempty)
  let ?m = "Suc (length ps)"
  have last: "(int 1 = int (Suc ?m) - 1) = (int 2 = int (Suc (Suc ?m)) - 1)" by auto
  have shift: "Address6_loop (Suc (Suc ?m)) (enumerate 3 ps) (Some 0) os =
      Address6_loop (Suc ?m) (enumerate 2 ps) (Some 0) os" for os
    using loop_shift[of 2 ps "Suc ?m" os] by (simp add: numeral_3_eq_3 numeral_2_eq_2)
  have A: "Address6_loop (Suc ?m) (enumerate 0 ([] # p # ps)) None [] =
      (case group_octets (int 1 = int (Suc ?m) - 1) p of
         Inl e \<Rightarrow> Inl e
       | Inr os \<Rightarrow> Address6_loop (Suc ?m) (enumerate 2 ps) (Some 0) os)"
    by (simp add: loop_empty loop_nonempty[OF p] numeral_2_eq_2 split: sum.splits
        del: Address6_loop.simps)
  have B: "Address6_loop (Suc (Suc ?m)) (enumerate 0 ([] # [] # p # ps)) None [] =
      (case group_octets (int 2 = int (Suc (Suc ?m)) - 1) p of
         Inl e \<Rightarrow> Inl e
       | Inr os \<Rightarrow> Address6_loop (Suc (Suc ?m)) (enumerate 3 ps) (Some 0) os)"
    by (simp add: loop_empty loop_nonempty[OF p] numeral_2_eq_2 numeral_3_eq_3
        split: sum.splits del: Address6_loop.simps)
  have "js_split CHR '':'' (CHR '':'' # s) = [] # p # ps"
    and "js_split CHR '':'' (CHR '':'' # CHR '':'' # s) = [] # [] # p # ps"
    by (simp_all add: parts)
  then show ?thesis
    by (simp only: length_Cons A B last shift)
qed


lemma js_split_snoc: "js_split sep (s @ [sep]) = js_split sep s @ [[]]"
proof (induction s)
  case Nil
  show ?case by simp
next
  case (Cons c cs)
  obtain q qs where "js_split sep cs = q # qs"
    using js_split_not_Nil[of sep cs] by (cases "js_split sep cs") auto
  with Cons show ?case by simp
qed

lemma js_split_last_nonempty:
  "s \<noteq> [] \<Longrightarrow> last s \<noteq> sep \<Longrightarrow> last (js_split sep s) \<noteq> []"
proof (induction s)
  case Nil
  then show ?case by simp
next
  case (Cons c cs)
  obtain q qs where split: "js_split sep cs = q # qs"
    using js_split_not_Nil[of sep cs] by (cases "js_split sep cs") auto
  show ?case
  proof (cases "cs = []")
    case True
    with Cons.prems show ?thesis by simp
  next
    case False
    with Cons have "last (q # qs) \<noteq> []" by (simp add: split)
    then show ?thesis
      by (cases "qs = []") (simp_all add: split)
  qed
qed

lemma loop_append:
  "Address6_loop n (xs @ ys) si octs =
     (case Address6_loop n xs si octs of
        Inl e \<Rightarrow> Inl e
      | Inr (si', octs') \<Rightarrow> Address6_loop n ys si' octs')"
proof (induction xs arbitrary: si octs)
  case Nil
  show ?case by simp
next
  case (Cons x xs)
  obtain i item where x: "x = (i, item)" by (cases x)
  show ?case
  proof (cases "item = []")
    case True
    show ?thesis
      unfolding x True append_Cons loop_empty
      by (simp add: Cons.IH split: option.splits)
  next
    case False
    show ?thesis
      unfolding x append_Cons loop_nonempty[OF False]
      by (simp add: Cons.IH split: sum.splits)
  qed
qed

lemma loop_si_origin:
  "Address6_loop n items si octs = Inr (si', octs') \<Longrightarrow>
   si' = si \<or> (si = None \<and> (\<exists>k. si' = Some k \<and> (k, []) \<in> set items))"
proof (induction items arbitrary: si octs)
  case Nil
  then show ?case by simp
next
  case (Cons x items)
  obtain i item where x: "x = (i, item)" by (cases x)
  show ?case
  proof (cases "item = []")
    case True
    note step = Cons.prems[unfolded x True loop_empty]
    show ?thesis
    proof (cases si)
      case None
      with step have "Address6_loop n items (Some i) octs = Inr (si', octs')" by simp
      from Cons.IH[OF this] have "si' = Some i" by simp
      with None x True show ?thesis by simp
    next
      case (Some k)
      with step have "Address6_loop n items si octs = Inr (si', octs')"
        by (simp split: if_splits)
      from Cons.IH[OF this] Some show ?thesis by simp
    qed
  next
    case False
    from Cons.prems[unfolded x loop_nonempty[OF False]]
    obtain os where "Address6_loop n items si (octs @ os) = Inr (si', octs')"
      by (auto split: sum.splits)
    from Cons.IH[OF this] show ?thesis by auto
  qed
qed

lemma trailing_loop:
  assumes "s \<noteq> []" and "last s \<noteq> CHR '':''"
  shows "Address6_loop (length (js_split CHR '':'' (s @ '':'')))
           (enumerate 0 (js_split CHR '':'' (s @ '':''))) None [] =
         Address6_loop (length (js_split CHR '':'' (s @ ''::'')))
           (enumerate 0 (js_split CHR '':'' (s @ ''::''))) None []"
proof -
  define parts where "parts = js_split CHR '':'' s"
  define m where "m = length parts"
  have ne: "parts \<noteq> []" unfolding parts_def by (rule js_split_not_Nil)
  then have m: "1 \<le> m" by (cases parts) (simp_all add: m_def)
  have lastp: "parts ! (m - 1) \<noteq> []"
    using js_split_last_nonempty[OF assms] ne by (simp add: parts_def m_def last_conv_nth)
  have one: "js_split CHR '':'' (s @ '':'') = parts @ [[]]"
    by (simp add: js_split_snoc parts_def)
  have "s @ ''::'' = (s @ '':'') @ '':''" by simp
  then have "js_split CHR '':'' (s @ ''::'') = js_split CHR '':'' (s @ '':'') @ [[]]"
    by (simp only: js_split_snoc)
  then have two: "js_split CHR '':'' (s @ ''::'') = parts @ [[], []]"
    by (simp add: one)
  let ?E = "enumerate 0 parts"
  have e1: "enumerate 0 (parts @ [[]]) = ?E @ [(m, [])]"
    by (simp add: enumerate_append_eq m_def)
  have e2: "enumerate 0 (parts @ [[], []]) = ?E @ [(m, []), (Suc m, [])]"
    by (simp add: enumerate_append_eq m_def)
  have "list_all (\<lambda>(i, x). int i < int (Suc m) - 1 \<and> int i < int (Suc (Suc m)) - 1) ?E"
    by (auto simp: list_all_iff in_set_enumerate_eq m_def)
  then have prefix: "Address6_loop (Suc (Suc m)) ?E None [] = Address6_loop (Suc m) ?E None []"
    by (rule loop_bound_indep[symmetric])
  have tail: "Address6_loop (Suc m) [(m, [])] si os =
      Address6_loop (Suc (Suc m)) [(m, []), (Suc m, [])] si os"
    if res: "Address6_loop (Suc m) ?E None [] = Inr (si, os)" for si os
  proof (cases si)
    case None
    with m show ?thesis by (simp add: loop_empty del: Address6_loop.simps(2))
  next
    case (Some k)
    with loop_si_origin[OF res] have "(k, []) \<in> set ?E" by simp
    then have "k < m" and "parts ! k = []"
      by (simp_all add: in_set_enumerate_eq m_def)
    with lastp have "k \<noteq> m - 1" by auto
    with \<open>k < m\<close> have "Suc k < m" by simp
    with Some show ?thesis by (simp add: loop_empty del: Address6_loop.simps(2))
  qed
  have "Address6_loop (Suc m) (?E @ [(m, [])]) None [] =
      Address6_loop (Suc (Suc m)) (?E @ [(m, []), (Suc m, [])]) None []"
    unfolding loop_append prefix
    by (cases "Address6_loop (Suc m) ?E None []") (auto simp: tail simp del: Address6_loop.simps(2))
  then show ?thesis
    by (simp only: one two e1 e2 length_append list.size m_def[symmetric]) simp
qed


lemma new_Address6_String_cong:
  assumes "Address6_loop (length (js_split CHR '':'' a)) (enumerate 0 (js_split CHR '':'' a)) None [] =
           Address6_loop (length (js_split CHR '':'' b)) (enumerate 0 (js_split CHR '':'' b)) None []"
  shows "new_Address6 (String a) = new_Address6 (String b)"
  using assms by (simp add: Let_def)

text \<open>Claim C10: a single lone colon at the start or at the end of an IPv6 string is
  accepted as if it were \<^verbatim>\<open>::\<close>. The colon is lone when the rest of the string is not empty
  and does not itself begin (at the start) or end (at the end) with a colon; for every
  such rest, valid or not, the constructor gives for the string with one colon what it
  gives for the string with two, the same address or the same exception. In particular
  \<^verbatim>\<open>Address6(":1:2:3:4:5:6:7")\<close> and \<^verbatim>\<open>Address6("1:2:3:4:5:6:7:")\<close> construct, the missing
  eighth group being two zero bytes at the place of the colon.\<close>

theorem lone_colon_is_elision:
  "(\<forall>s. s \<noteq> [] \<and> hd s \<noteq> CHR '':'' \<longrightarrow>
        new_Address6 (String ('':'' @ s)) = new_Address6 (String (''::'' @ s)))
   \<and> (\<forall>s. s \<noteq> [] \<and> last s \<noteq> CHR '':'' \<longrightarrow>
        new_Address6 (String (s @ '':'')) = new_Address6 (String (s @ ''::'')))
   \<and> new_Address6 (String '':1:2:3:4:5:6:7'') =
       Inr (Address6 (ByteContainer [0, 0, 0, 1, 0, 2, 0, 3, 0, 4, 0, 5, 0, 6, 0, 7]))
   \<and> new_Address6 (String ''1:2:3:4:5:6:7:'') =
       Inr (Address6 (ByteContainer [0, 1, 0, 2, 0, 3, 0, 4, 0, 5, 0, 6, 0, 7, 0, 0]))"
proof -
  have leading: "new_Address6 (String ('':'' @ s)) = new_Address6 (String (''::'' @ s))"
    if "s \<noteq> []" and "hd s \<noteq> CHR '':''" for s
    using leading_loop[OF that] by (intro new_Address6_String_cong) simp
  have trailing: "new_Address6 (String (s @ '':'')) = new_Address6 (String (s @ ''::''))"
    if "s \<noteq> []" and "last s \<noteq> CHR '':''" for s
    using trailing_loop[OF that] by (rule new_Address6_String_cong)
  have first: "new_Address6 (String '':1:2:3:4:5:6:7'') =
      Inr (Address6 (ByteContainer [0, 0, 0, 1, 0, 2, 0, 3, 0, 4, 0, 5, 0, 6, 0, 7]))"
    by code_simp
  have second: "new_Address6 (String ''1:2:3:4:5:6:7:'') =
      Inr (Address6 (ByteContainer [0, 1, 0, 2, 0, 3, 0, 4, 0, 5, 0, 6, 0, 7, 0, 0]))"
    by code_simp
  from leading trailing first second show ?thesis
    by blast
qed

theorem lone_colon_is_elision_witness:
  "''1:2:3:4:5:6:7'' \<noteq> [] \<and> hd ''1:2:3:4:5:6:7'' \<noteq> CHR '':''
   \<and> last ''1:2:3:4:5:6:7'' \<noteq> CHR '':''
   \<and> new_Address6 (String ''::1:2:3:4:5:6:7'') =
       Inr (Address6 (ByteContainer [0, 0, 0, 1, 0, 2, 0, 3, 0, 4, 0, 5, 0, 6, 0, 7]))
   \<and> new_Address6 (String ''1:2:3:4:5:6:7::'') =
       Inr (Address6 (ByteContainer [0, 1, 0, 2, 0, 3, 0, 4, 0, 5, 0, 6, 0, 7, 0, 0]))
   \<and> new_Address6 (String '':1:2:3:4:5:6:7'') = new_Address6 (String ''::1:2:3:4:5:6:7'')
   \<and> new_Address6 (String ''1:2:3:4:5:6:7:'') = new_Address6 (String ''1:2:3:4:5:6:7::'')"
proof -
  let ?s = "''1:2:3:4:5:6:7''"
  have h: "?s \<noteq> []" "hd ?s \<noteq> CHR '':''" "last ?s \<noteq> CHR '':''"
    by simp_all
  from lone_colon_is_elision have
    "new_Address6 (String ('':'' @ ?s)) = new_Address6 (String (''::'' @ ?s))"
    and "new_Address6 (String (?s @ '':'')) = new_Address6 (String (?s @ ''::''))"
    and "new_Address6 (String '':1:2:3:4:5:6:7'') =
      Inr (Address6 (ByteContainer [0, 0, 0, 1, 0, 2, 0, 3, 0, 4, 0, 5, 0, 6, 0, 7]))"
    and "new_Address6 (String ''1:2:3:4:5:6:7:'') =
      Inr (Address6 (ByteContainer [0, 1, 0, 2, 0, 3, 0, 4, 0, 5, 0, 6, 0, 7, 0, 0]))"
    using h by blast+
  with h show ?thesis
    by simp
qed

text \<open>Where the colon is not lone the two strings differ: \<^verbatim>\<open>":"\<close> alone is the all-zero
  address and \<^verbatim>\<open>"::"\<close> alone is refused, and a colon next to another one makes \<^verbatim>\<open>::\<close>
  out of \<^verbatim>\<open>:\<close> and the refused \<^verbatim>\<open>:::\<close> out of \<^verbatim>\<open>::\<close>.\<close>

lemma lone_colon_boundary:
  "new_Address6 (String '':'') \<noteq> new_Address6 (String ''::'')"
  "new_Address6 (String ''::1'') \<noteq> new_Address6 (String '':::1'')"
  "new_Address6 (String ''1::'') \<noteq> new_Address6 (String ''1:::'')"
  by code_simp+

end
